theory Spec2Isabelle
  imports Complex_Main "HOL-Library.Multiset"
begin

section \<open>Sample trees and the statistics store\<close>

text \<open>
  This theory embeds \<^verbatim>\<open>jsm/inspector/Inspector.js\<close>: the aggregation of sample trees
  (\<^verbatim>\<open>getStatsData\<close>, \<^verbatim>\<open>resolveStats\<close>), the cycle timers (\<^verbatim>\<open>updateCycle\<close>), the
  resolution of a frame (\<^verbatim>\<open>resolveFrame\<close>) and the canvas cache
  (\<^verbatim>\<open>getCanvasDataByNode\<close>).

  The numbers of the program are kept polymorphic: \<^verbatim>\<open>+\<close>, \<^verbatim>\<open>-\<close>, \<^verbatim>\<open><\<close> and \<^verbatim>\<open>>=\<close> are
  the operations of the type the samples are taken from, and every result states the
  arithmetic it needs in the sort of its type variable. A result for all linearly
  ordered fields, or for all commutative monoids, is a result about exact arithmetic.
  Where the rounding of \<^verbatim>\<open>+\<close> decides a question, the program is run on the type
  \<open>double\<close> of the section on binary64 numbers; where \<^verbatim>\<open>NaN\<close> or an infinity decides
  it, on the type \<open>number\<close> of the section after that.

  A sample node is an object with the fields \<^verbatim>\<open>cid\<close>, \<^verbatim>\<open>cpu\<close>, \<^verbatim>\<open>gpu\<close> and
  \<^verbatim>\<open>children\<close>.
\<close>

datatype 'a stats = Stats (cid: nat) (cpu: 'a) (gpu: 'a) (children: "'a stats list")

text \<open>
  The objects held by \<^verbatim>\<open>this.statsData\<close>. \<^verbatim>\<open>getStatsData\<close> creates them as \<^verbatim>\<open>{}\<close>,
  so every field starts out absent: \<open>None\<close> stands for \<^verbatim>\<open>undefined\<close>, and the flag
  \<^verbatim>\<open>initialized\<close> is \<open>False\<close> until it is set to \<^verbatim>\<open>true\<close>.
\<close>

record 'a entry =
  d_cpu :: "'a option"
  d_gpu :: "'a option"
  d_total :: "'a option"
  d_initialized :: bool

type_synonym 'a statsData = "nat \<Rightarrow> 'a entry option"

definition new_object :: "'a entry" where
  "new_object = \<lparr>d_cpu = None, d_gpu = None, d_total = None, d_initialized = False\<rparr>"

text \<open>
  \<^verbatim>\<open>getStatsData( cid )\<close> (lines 207-221) looks the key up and stores a new object on a
  miss. The map never replaces or removes an object, so the object it returns is
  identified by its key: \<open>deref\<close> reads it and \<open>assign\<close> writes its fields.
\<close>

definition getStatsData :: "'a statsData \<Rightarrow> nat \<Rightarrow> 'a statsData" where
  "getStatsData sd c = (case sd c of None \<Rightarrow> sd(c \<mapsto> new_object) | Some d \<Rightarrow> sd)"

definition deref :: "'a statsData \<Rightarrow> nat \<Rightarrow> 'a entry" where
  "deref sd c = (case sd c of None \<Rightarrow> new_object | Some d \<Rightarrow> d)"

definition assign :: "nat \<Rightarrow> ('a entry \<Rightarrow> 'a entry) \<Rightarrow> 'a statsData \<Rightarrow> 'a statsData" where
  "assign c f sd = sd(c \<mapsto> f (deref sd c))"

text \<open>
  \<^verbatim>\<open>x + y\<close> on fields that may be absent: an absent operand gives no number
  (\<^verbatim>\<open>undefined + 1\<close> is \<^verbatim>\<open>NaN\<close>).
\<close>

fun js_add :: "'a::plus option \<Rightarrow> 'a option \<Rightarrow> 'a option" where
  "js_add (Some x) (Some y) = Some (x + y)"
| "js_add _ _ = None"

subsection \<open>resolveStats\<close>

text \<open>
  Lines 225-240 of \<^verbatim>\<open>resolveStats\<close>: the object of \<^verbatim>\<open>stats.cid\<close> is fetched, seeded when
  it is not initialized, and then overwritten with the node's own sample. The arguments
  are \<^verbatim>\<open>stats.cid\<close>, \<^verbatim>\<open>stats.cpu\<close> and \<^verbatim>\<open>stats.gpu\<close>.
\<close>

definition seed :: "nat \<Rightarrow> 'a::plus \<Rightarrow> 'a \<Rightarrow> 'a statsData \<Rightarrow> 'a statsData" where
  "seed stats_cid stats_cpu stats_gpu sd0 =
    (let c = stats_cid;
         sd1 = getStatsData sd0 c;
         sd2 = (if \<not> d_initialized (deref sd1 c)
                then (let i1 = assign c (\<lambda>d. d\<lparr>d_cpu := Some stats_cpu\<rparr>) sd1;
                          i2 = assign c (\<lambda>d. d\<lparr>d_gpu := Some stats_gpu\<rparr>) i1
                      in assign c (\<lambda>d. d\<lparr>d_initialized := True\<rparr>) i2)
                else sd1);
         sd3 = assign c (\<lambda>d. d\<lparr>d_cpu := Some stats_cpu\<rparr>) sd2;
         sd4 = assign c (\<lambda>d. d\<lparr>d_gpu := Some stats_gpu\<rparr>) sd3
     in assign c (\<lambda>d. d\<lparr>d_total := js_add (d_cpu d) (d_gpu d)\<rparr>) sd4)"

text \<open>
  Lines 248-252, the body of the loop after the recursive call: the child's object is
  fetched and its three fields are added to the fields of the parent's object, one
  assignment after the other. Parent and child are the same object when their keys are
  equal; each assignment reads the store as the previous one left it.
\<close>

definition addChild :: "nat \<Rightarrow> nat \<Rightarrow> 'a::plus statsData \<Rightarrow> 'a statsData" where
  "addChild c cc sd0 =
    (let sd1 = getStatsData sd0 cc;
         sd2 = assign c (\<lambda>d. d\<lparr>d_cpu := js_add (d_cpu d) (d_cpu (deref sd1 cc))\<rparr>) sd1;
         sd3 = assign c (\<lambda>d. d\<lparr>d_gpu := js_add (d_gpu d) (d_gpu (deref sd2 cc))\<rparr>) sd2
     in assign c (\<lambda>d. d\<lparr>d_total := js_add (d_total d) (d_total (deref sd3 cc))\<rparr>) sd3)"

text \<open>
  \<^verbatim>\<open>resolveStats( stats )\<close> (lines 223-256). The \<^verbatim>\<open>for ... of\<close> loop over
  \<^verbatim>\<open>stats.children\<close> is \<open>resolveChildren\<close>, which carries the parent's key.
\<close>

fun resolveStats :: "'a::plus statsData \<Rightarrow> 'a stats \<Rightarrow> 'a statsData"
  and resolveChildren :: "nat \<Rightarrow> 'a::plus statsData \<Rightarrow> 'a stats list \<Rightarrow> 'a statsData" where
  "resolveStats sd (Stats c a b cs) = resolveChildren c (seed c a b sd) cs"
| "resolveChildren c sd [] = sd"
| "resolveChildren c sd (child # rest) =
     resolveChildren c (addChild c (cid child) (resolveStats sd child)) rest"

section \<open>Cycle timers\<close>

text \<open>
  A cycle timer is one of the two objects of \<^verbatim>\<open>this.displayCycle\<close> (lines 55-66).
\<close>

record 'a cycle =
  needsUpdate :: bool
  duration :: 'a
  time :: 'a

record 'a display =
  text_cycle :: "'a cycle"
  graph_cycle :: "'a cycle"

text \<open>
  \<^verbatim>\<open>updateCycle( cycle )\<close> (lines 413-424). The amount added is
  \<^verbatim>\<open>this.nodeFrame.deltaTime\<close>, a member of the base class that the host sets: it is the
  first argument here.
\<close>

definition updateCycle :: "'a::{plus,zero,ord} \<Rightarrow> 'a cycle \<Rightarrow> 'a cycle" where
  "updateCycle nodeFrame_deltaTime cycle =
    (let cycle1 = cycle\<lparr>time := time cycle + nodeFrame_deltaTime\<rparr>
     in if time cycle1 \<ge> duration cycle1
        then cycle1\<lparr>needsUpdate := True, time := 0\<rparr>
        else cycle1)"

section \<open>Frames and the inspector\<close>

text \<open>
  A frame record: \<^verbatim>\<open>frameId\<close>, \<^verbatim>\<open>startTime\<close> and \<^verbatim>\<open>children\<close> come from the host;
  \<^verbatim>\<open>cpu\<close>, \<^verbatim>\<open>gpu\<close>, \<^verbatim>\<open>total\<close>, \<^verbatim>\<open>deltaTime\<close> and \<^verbatim>\<open>miscellaneous\<close> are
  assigned by \<^verbatim>\<open>resolveFrame\<close> and absent (\<open>None\<close>) before.
\<close>

record 'a frame =
  frameId :: nat
  startTime :: 'a
  f_children :: "'a stats list"
  f_cpu :: "'a option"
  f_gpu :: "'a option"
  f_total :: "'a option"
  f_deltaTime :: "'a option"
  f_miscellaneous :: "'a option"

text \<open>
  The calls \<^verbatim>\<open>resolveFrame\<close> makes into the user interface (\<^verbatim>\<open>setText\<close>,
  \<^verbatim>\<open>performance.updateText\<close>, \<^verbatim>\<open>performance.updateGraph\<close>) are recorded in order.
\<close>

datatype ui_call = SetText | UpdateText | UpdateGraph

record 'a inspector =
  deltaTime :: 'a
  softDeltaTime :: 'a
  statsData :: "'a statsData"
  displayCycle :: "'a display"
  ui_calls :: "ui_call list"

text \<open>The fields the constructor sets (lines 43-66).\<close>

definition Inspector :: "'a::linordered_field inspector" where
  "Inspector =
    \<lparr>deltaTime = 0,
     softDeltaTime = 0,
     statsData = Map.empty,
     displayCycle =
       \<lparr>text_cycle = \<lparr>needsUpdate = False, duration = 0.25, time = 0\<rparr>,
        graph_cycle = \<lparr>needsUpdate = False, duration = 0.05, time = 0\<rparr>\<rparr>,
     ui_calls = []\<rparr>"

text \<open>
  The constant of line 13.
\<close>

definition EASE_FACTOR :: "'a::{inverse,numeral}" where
  "EASE_FACTOR = 0.1"

text \<open>
  \<^verbatim>\<open>x - y\<close> on fields that may be absent, as \<open>js_add\<close> above.
\<close>

fun js_sub :: "'a::minus option \<Rightarrow> 'a option \<Rightarrow> 'a option" where
  "js_sub (Some x) (Some y) = Some (x - y)"
| "js_sub _ _ = None"

text \<open>\<^verbatim>\<open>x < y\<close> on a field that may be absent: no number is less than another.\<close>

fun js_less :: "'a::ord option \<Rightarrow> 'a \<Rightarrow> bool" where
  "js_less (Some x) y = (x < y)"
| "js_less None y = False"

text \<open>
  The loop of lines 343-353 over \<^verbatim>\<open>frame.children\<close>, on the frame and the store.
\<close>

fun resolveFrameChildren ::
  "'a::plus frame \<times> 'a statsData \<Rightarrow> 'a stats list \<Rightarrow> 'a frame \<times> 'a statsData" where
  "resolveFrameChildren (frame, sd) [] = (frame, sd)"
| "resolveFrameChildren (frame, sd) (stats # rest) =
    (let sd1 = resolveStats sd stats;
         sd2 = getStatsData sd1 (cid stats);
         data = deref sd2 (cid stats);
         frame1 = frame\<lparr>f_cpu := js_add (f_cpu frame) (d_cpu data)\<rparr>;
         frame2 = frame1\<lparr>f_gpu := js_add (f_gpu frame1) (d_gpu data)\<rparr>;
         frame3 = frame2\<lparr>f_total := js_add (f_total frame2) (d_total data)\<rparr>
     in resolveFrameChildren (frame3, sd2) rest)"

text \<open>
  \<^verbatim>\<open>resolveFrame( frame )\<close> (lines 333-399). Three members it uses are not defined in
  this file and are arguments: \<^verbatim>\<open>this.getFrameById\<close> (a frame, or \<open>None\<close> for the
  falsy result), \<^verbatim>\<open>this.nodeFrame.deltaTime\<close>, and the imported function \<^verbatim>\<open>ease\<close>
  (\<open>ease_fn\<close>).
  The result is the inspector and the frame as the call leaves them. The method needs
  of its numbers only \<^verbatim>\<open>0\<close>, \<^verbatim>\<open>+\<close>, \<^verbatim>\<open>-\<close>, \<^verbatim>\<open><\<close>, \<^verbatim>\<open>>=\<close> and the constant \<^verbatim>\<open>0.1\<close>.
\<close>

definition resolveFrame ::
  "(nat \<Rightarrow> 'a frame option) \<Rightarrow> 'a \<Rightarrow> ('a \<Rightarrow> 'a \<Rightarrow> 'a \<Rightarrow> 'a \<Rightarrow> 'a) \<Rightarrow>
   'a::{zero,minus,ord,inverse,numeral} inspector \<Rightarrow> 'a frame \<Rightarrow> 'a inspector \<times> 'a frame" where
  "resolveFrame getFrameById nodeFrame_deltaTime ease_fn this frame =
    (case getFrameById (frameId frame + 1) of
       None \<Rightarrow> (this, frame)
     | Some nextFrame \<Rightarrow>
        (let frame0 = frame\<lparr>f_cpu := Some 0, f_gpu := Some 0, f_total := Some 0\<rparr>;
             (frame1, sd) = resolveFrameChildren (frame0, statsData this) (f_children frame0);
             dt = startTime nextFrame - startTime frame1;
             frame2 = frame1\<lparr>f_deltaTime := Some dt\<rparr>;
             frame3 = frame2\<lparr>f_miscellaneous := js_sub (f_deltaTime frame2) (f_total frame2)\<rparr>;
             frame4 = (if js_less (f_miscellaneous frame3) 0
                       then frame3\<lparr>f_miscellaneous := Some 0\<rparr> else frame3);
             this1 = this\<lparr>statsData := sd\<rparr>;
             this2 = (if softDeltaTime this1 = 0 then this1\<lparr>softDeltaTime := dt\<rparr> else this1);
             this3 = this2\<lparr>deltaTime := dt\<rparr>;
             this4 = this3\<lparr>softDeltaTime := ease_fn (softDeltaTime this3) dt nodeFrame_deltaTime EASE_FACTOR\<rparr>;
             text1 = updateCycle nodeFrame_deltaTime (text_cycle (displayCycle this4));
             graph1 = updateCycle nodeFrame_deltaTime (graph_cycle (displayCycle this4));
             this5 = this4\<lparr>ui_calls := ui_calls this4
                       @ (if needsUpdate text1 then [SetText, UpdateText] else [])
                       @ (if needsUpdate graph1 then [UpdateGraph] else [])\<rparr>
         in (this5\<lparr>displayCycle :=
                \<lparr>text_cycle = text1\<lparr>needsUpdate := False\<rparr>,
                 graph_cycle = graph1\<lparr>needsUpdate := False\<rparr>\<rparr>\<rparr>,
             frame4)))"

section \<open>The canvas cache\<close>

text \<open>
  \<^verbatim>\<open>getCanvasDataByNode\<close> works on \<^verbatim>\<open>this.canvasNodes\<close> only, a \<^verbatim>\<open>Map\<close> keyed by the node
  object itself. A node is given by its identity as an object (\<open>node_ref\<close>), its
  \<^verbatim>\<open>id\<close> and what \<^verbatim>\<open>getName()\<close> returns now (\<open>None\<close> for \<^verbatim>\<open>null\<close> or \<^verbatim>\<open>undefined\<close>).
  Every object the method creates gets the next free address of a heap, so that two
  results can be compared as references.
\<close>

record node =
  node_ref :: nat
  node_id :: nat
  getName :: "string option"

record canvasData =
  cd_id :: nat
  cd_name :: string
  cd_path :: string
  cd_node :: nat
  cd_quad :: nat
  cd_canvasTarget :: nat
  cd_material :: nat

datatype object =
    Canvas
  | CanvasTarget nat rat nat nat
  | OutputNode nat string
  | NodeMaterial nat
  | QuadMesh nat string
  | Bundle canvasData

record viewer_state =
  canvasNodes :: "nat \<Rightarrow> nat option"
  heap :: "object list"

text \<open>
  What the method reads from outside: \<^verbatim>\<open>window.devicePixelRatio\<close>,
  \<^verbatim>\<open>renderer.outputColorSpace\<close>, and the functions \<^verbatim>\<open>splitPath\<close> and \<^verbatim>\<open>splitCamelCase\<close>
  imported from \<^verbatim>\<open>./ui/utils.js\<close>, which is not among the sources (\<^verbatim>\<open>splitPath\<close> returns
  the path and the name).
\<close>

record env =
  devicePixelRatio :: rat
  outputColorSpace :: string
  splitPath :: "string \<Rightarrow> string \<times> string"
  splitCamelCase :: "string \<Rightarrow> string"

text \<open>
  Creating an object: it gets the next free address.
\<close>

definition alloc :: "object \<Rightarrow> viewer_state \<Rightarrow> nat \<times> viewer_state" where
  "alloc x s = (length (heap s), s\<lparr>heap := heap s @ [x]\<rparr>)"

text \<open>
  \<^verbatim>\<open>getCanvasDataByNode( node )\<close> (lines 258-302). The output node stands for the three
  calls of lines 276-278; the canvas target is recorded with the pixel ratio and the
  size that lines 269-270 give it.
\<close>

definition getCanvasDataByNode :: "env \<Rightarrow> viewer_state \<Rightarrow> node \<Rightarrow> nat \<times> viewer_state" where
  "getCanvasDataByNode e s node =
    (case canvasNodes s (node_ref node) of
       Some canvasData \<Rightarrow> (canvasData, s)
     | None \<Rightarrow>
        (let (canvas, s1) = alloc Canvas s;
             (canvasTarget, s2) = alloc (CanvasTarget canvas (devicePixelRatio e) 140 140) s1;
             id = node_id node;
             (path, name) = splitPath e (splitCamelCase e
                (case getName node of
                   None \<Rightarrow> ''(unnamed)''
                 | Some n \<Rightarrow> if n = [] then ''(unnamed)'' else n));
             (output, s3) = alloc (OutputNode (node_ref node) (outputColorSpace e)) s2;
             (material, s4) = alloc (NodeMaterial output) s3;
             (quad, s5) = alloc (QuadMesh material (''Viewer - '' @ name)) s4;
             (canvasData, s6) = alloc (Bundle
                \<lparr>cd_id = id, cd_name = name, cd_path = path, cd_node = node_ref node,
                 cd_quad = quad, cd_canvasTarget = canvasTarget, cd_material = material\<rparr>) s5
         in (canvasData, s6\<lparr>canvasNodes := (canvasNodes s6)(node_ref node \<mapsto> canvasData)\<rparr>)))"

section \<open>Sample trees as objects\<close>

text \<open>
  In the program a sample node is an object and \<^verbatim>\<open>children\<close> holds references, so the
  nodes reachable from one node need not form a tree: a node can be reached from itself.
  Here every address holds a sample object whose children are addresses.
  \<open>resolveStats_at\<close> is \<^verbatim>\<open>resolveStats\<close> on such objects, with a bound on the depth of
  nested calls: \<open>None\<close> means that the bound was reached.
\<close>

record 'a sample =
  s_cid :: nat
  s_cpu :: 'a
  s_gpu :: 'a
  s_children :: "nat list"

fun resolveStats_at :: "nat \<Rightarrow> (nat \<Rightarrow> 'a::plus sample) \<Rightarrow> 'a statsData \<Rightarrow> nat \<Rightarrow> 'a statsData option"
  and resolveChildren_at ::
    "nat \<Rightarrow> (nat \<Rightarrow> 'a::plus sample) \<Rightarrow> nat \<Rightarrow> 'a statsData \<Rightarrow> nat list \<Rightarrow> 'a statsData option" where
  "resolveStats_at 0 h sd r = None"
| "resolveStats_at (Suc depth) h sd r =
     resolveChildren_at depth h (s_cid (h r))
       (seed (s_cid (h r)) (s_cpu (h r)) (s_gpu (h r)) sd) (s_children (h r))"
| "resolveChildren_at depth h c sd [] = Some sd"
| "resolveChildren_at depth h c sd (r # rest) =
     (case resolveStats_at depth h sd r of
        None \<Rightarrow> None
      | Some sd1 \<Rightarrow> resolveChildren_at depth h c (addChild c (s_cid (h r)) sd1) rest)"

section \<open>The smoothing function\<close>

text \<open>
  Modelled from the spec: \<^verbatim>\<open>ease\<close> is imported from \<^verbatim>\<open>./ui/utils.js\<close>, which is not among
  the sources. The specification describes it as a first-order low-pass filter: the
  smoothed value moves a fraction, controlled by the factor and the elapsed time, of the
  way from its previous value toward the new raw sample. The fraction is left open
  there; it is the argument \<open>fraction\<close>.
\<close>

definition ease :: "('a \<Rightarrow> 'a \<Rightarrow> 'a) \<Rightarrow> 'a::linordered_field \<Rightarrow> 'a \<Rightarrow> 'a \<Rightarrow> 'a \<Rightarrow> 'a" where
  "ease fraction previous raw dt factor = previous + (raw - previous) * fraction factor dt"

section \<open>Binary64 numbers\<close>

text \<open>
  The numbers of the program are IEEE 754 binary64 values, and \<^verbatim>\<open>+\<close> rounds: the sum of
  two of them is the exact sum rounded to 53 significant bits, ties to even. The type
  \<open>double\<close> holds the binary64 values that are integers, below the overflow
  threshold; they are closed under \<^verbatim>\<open>+\<close>. \<open>Double i\<close> is such a value when \<open>i\<close> has
  at most 53 significant bits, that is when \<open>round53 i = i\<close>. \<open>bit_length\<close> is the
  number of binary digits of a positive integer; \<open>round53\<close> keeps the first 53 of them
  and rounds the rest to the nearest, to the even neighbour on a tie.
\<close>

function bit_length :: "int \<Rightarrow> nat" where
  "bit_length i = (if i \<le> 0 then 0 else Suc (bit_length (i div 2)))"
  by pat_completeness auto
termination
  by (relation "measure nat") auto

declare bit_length.simps [simp del]

definition round53 :: "int \<Rightarrow> int" where
  "round53 i =
    (let m = \<bar>i\<bar>;
         u = 2 ^ (bit_length m - 53);
         q = m div u;
         r = m mod u;
         q' = (if 2 * r < u then q else if u < 2 * r then q + 1 else if even q then q else q + 1)
     in sgn i * (q' * u))"

datatype double = Double (val: int)

instantiation double :: "{zero,plus,ord}"
begin

definition zero_double :: double where
  "zero_double = Double 0"

definition plus_double :: "double \<Rightarrow> double \<Rightarrow> double" where
  "plus_double x y = Double (round53 (val x + val y))"

definition less_eq_double :: "double \<Rightarrow> double \<Rightarrow> bool" where
  "less_eq_double x y = (val x \<le> val y)"

definition less_double :: "double \<Rightarrow> double \<Rightarrow> bool" where
  "less_double x y = (val x < val y)"

instance ..

end

section \<open>Numbers with the special values\<close>

text \<open>
  Besides the finite numbers a binary64 value can be \<^verbatim>\<open>Infinity\<close>, \<^verbatim>\<open>-Infinity\<close> or
  \<^verbatim>\<open>NaN\<close>. The type \<open>number\<close> has these three values beside the rational numbers,
  with the operations IEEE 754 gives them: a sum or a difference with an operand
  \<^verbatim>\<open>NaN\<close>, or of two infinities that cancel, is \<^verbatim>\<open>NaN\<close>; an infinity absorbs every finite
  number; every comparison with \<^verbatim>\<open>NaN\<close> is false. Finite numbers are added, subtracted
  and divided exactly here (rounding is the subject of \<open>double\<close>), and the two zeros of
  binary64 are one number.
\<close>

datatype number = Num rat | Infinity | MinusInfinity | NaN

instantiation number :: "{zero,one,plus,minus,inverse,ord}"
begin

definition zero_number :: number where
  "zero_number = Num 0"

definition one_number :: number where
  "one_number = Num 1"

fun plus_number :: "number \<Rightarrow> number \<Rightarrow> number" where
  "Num x + Num y = Num (x + y)"
| "NaN + y = NaN"
| "x + NaN = NaN"
| "Infinity + MinusInfinity = NaN"
| "MinusInfinity + Infinity = NaN"
| "Infinity + y = Infinity"
| "x + Infinity = Infinity"
| "MinusInfinity + y = MinusInfinity"
| "x + MinusInfinity = MinusInfinity"

fun minus_number :: "number \<Rightarrow> number \<Rightarrow> number" where
  "Num x - Num y = Num (x - y)"
| "NaN - y = NaN"
| "x - NaN = NaN"
| "Infinity - Infinity = NaN"
| "MinusInfinity - MinusInfinity = NaN"
| "Infinity - y = Infinity"
| "x - MinusInfinity = Infinity"
| "MinusInfinity - y = MinusInfinity"
| "x - Infinity = MinusInfinity"

fun less_number :: "number \<Rightarrow> number \<Rightarrow> bool" where
  "Num x < Num y = (x < y)"
| "NaN < y = False"
| "x < NaN = False"
| "x < MinusInfinity = False"
| "Infinity < y = False"
| "MinusInfinity < y = True"
| "x < Infinity = True"

fun less_eq_number :: "number \<Rightarrow> number \<Rightarrow> bool" where
  "Num x \<le> Num y = (x \<le> y)"
| "NaN \<le> y = False"
| "x \<le> NaN = False"
| "MinusInfinity \<le> y = True"
| "x \<le> Infinity = True"
| "x \<le> MinusInfinity = False"
| "Infinity \<le> y = False"

fun divide_number :: "number \<Rightarrow> number \<Rightarrow> number" where
  "divide_number (Num x) (Num y) =
     (if y = 0 then (if x = 0 then NaN else if 0 < x then Infinity else MinusInfinity)
      else Num (x / y))"
| "divide_number NaN y = NaN"
| "divide_number x NaN = NaN"
| "divide_number (Num x) y = Num 0"
| "divide_number Infinity (Num y) = (if y < 0 then MinusInfinity else Infinity)"
| "divide_number MinusInfinity (Num y) = (if y < 0 then Infinity else MinusInfinity)"
| "divide_number x y = NaN"

definition inverse_number :: "number \<Rightarrow> number" where
  "inverse_number x = divide (Num 1) x"

instance ..

end

text \<open>
  Addition is associative on these numbers, so the numerals denote numbers too.
\<close>

instance number :: numeral
proof
  fix a b c :: number
  show "a + b + c = a + (b + c)"
    by (cases a; cases b; cases c) simp_all
qed

section \<open>Runs of the program\<close>

text \<open>
  A timer advanced by a sequence of deltas, its flag cleared after every advance as
  \<^verbatim>\<open>resolveFrame\<close> does at lines 396-397. The result counts the advances that fired.
\<close>

fun advance :: "'a::{plus,zero,ord} cycle \<Rightarrow> 'a list \<Rightarrow> nat \<times> 'a cycle" where
  "advance cycle [] = (0, cycle)"
| "advance cycle (dt # dts) =
    (let cycle1 = updateCycle dt cycle;
         (k, cycle2) = advance (cycle1\<lparr>needsUpdate := False\<rparr>) dts
     in ((if needsUpdate cycle1 then 1 else 0) + k, cycle2))"

text \<open>
  A sequence of calls of \<^verbatim>\<open>resolveFrame\<close> on one inspector; every call comes with the
  host's state at that time (the frame lookup and \<^verbatim>\<open>nodeFrame.deltaTime\<close>) and its frame.
\<close>

fun resolveFrames ::
  "('a \<Rightarrow> 'a \<Rightarrow> 'a \<Rightarrow> 'a \<Rightarrow> 'a) \<Rightarrow> 'a::{zero,minus,ord,inverse,numeral} inspector \<Rightarrow>
   ((nat \<Rightarrow> 'a frame option) \<times> 'a \<times> 'a frame) list \<Rightarrow> 'a inspector" where
  "resolveFrames ease_fn this [] = this"
| "resolveFrames ease_fn this ((getFrameById, nodeFrame_deltaTime, frame) # calls) =
     resolveFrames ease_fn
       (fst (resolveFrame getFrameById nodeFrame_deltaTime ease_fn this frame)) calls"

text \<open>A sequence of lookups, each with the environment of its time.\<close>

fun lookups :: "viewer_state \<Rightarrow> (env \<times> node) list \<Rightarrow> viewer_state" where
  "lookups s [] = s"
| "lookups s ((e, node) # rest) = lookups (snd (getCanvasDataByNode e s node)) rest"

section \<open>Vocabulary\<close>

subsection \<open>Sample trees\<close>

text \<open>
  The nodes of a tree, and of a list of trees, in the order in which \<^verbatim>\<open>resolveStats\<close> visits
  them.
\<close>

fun nodes :: "'a stats \<Rightarrow> 'a stats list"
  and forest :: "'a stats list \<Rightarrow> 'a stats list" where
  "nodes (Stats c a b cs) = Stats c a b cs # forest cs"
| "forest [] = []"
| "forest (child # rest) = nodes child @ forest rest"

text \<open>
  The keys used in a tree.
\<close>

definition cids :: "'a stats \<Rightarrow> nat set" where
  "cids t = cid ` set (nodes t)"

text \<open>The proper descendants of a node.\<close>

definition descendants :: "'a stats \<Rightarrow> 'a stats list" where
  "descendants n = forest (children n)"

text \<open>
  The own total of a node: its \<^verbatim>\<open>cpu + gpu\<close>.
\<close>

definition own :: "'a::plus stats \<Rightarrow> 'a" where
  "own n = cpu n + gpu n"

text \<open>
  The labels of a node: what a reordering of siblings keeps.
\<close>

definition label :: "'a stats \<Rightarrow> nat \<times> 'a \<times> 'a" where
  "label n = (cid n, cpu n, gpu n)"

text \<open>
  The height of a tree.
\<close>

fun height :: "'a stats \<Rightarrow> nat"
  and heights :: "'a stats list \<Rightarrow> nat" where
  "height (Stats c a b cs) = Suc (heights cs)"
| "heights [] = 0"
| "heights (child # rest) = max (height child) (heights rest)"

text \<open>
  Two trees that differ only in the order of siblings, at any depth.
\<close>

inductive reorder :: "'a stats \<Rightarrow> 'a stats \<Rightarrow> bool" where
  "list_all2 reorder cs ds \<Longrightarrow> mset ds = mset ds' \<Longrightarrow>
     reorder (Stats c a b cs) (Stats c a b ds')"

text \<open>
  No node of the tree has the key of one of its proper descendants.
\<close>

fun nest_free :: "'a stats \<Rightarrow> bool" where
  "nest_free (Stats c a b cs) = (c \<notin> cid ` set (forest cs) \<and> list_all nest_free cs)"

subsection \<open>The sums of the aggregation\<close>

text \<open>
  The three sums \<^verbatim>\<open>cpu\<close>, \<^verbatim>\<open>gpu\<close> and \<^verbatim>\<open>total\<close> of the subtree of a node, written without the store:
  \<open>agg\<close> starts from the node's own sample and adds the sums of the children in the order of
  the loop, field by field.
\<close>

definition add3 :: "'a::plus \<times> 'a \<times> 'a \<Rightarrow> 'a \<times> 'a \<times> 'a \<Rightarrow> 'a \<times> 'a \<times> 'a" where
  "add3 p q = (case p of (x, y, t) \<Rightarrow> case q of (x', y', t') \<Rightarrow> (x + x', y + y', t + t'))"

fun agg :: "'a::plus stats \<Rightarrow> 'a \<times> 'a \<times> 'a"
  and aggs :: "'a \<times> 'a \<times> 'a \<Rightarrow> 'a::plus stats list \<Rightarrow> 'a \<times> 'a \<times> 'a" where
  "agg (Stats c a b cs) = aggs (a, b, a + b) cs"
| "aggs acc [] = acc"
| "aggs acc (child # rest) = aggs (add3 acc (agg child)) rest"

text \<open>
  The third of the three sums.
\<close>

definition total3 :: "'a \<times> 'a \<times> 'a \<Rightarrow> 'a" where
  "total3 v = snd (snd v)"

text \<open>
  The object that holds three sums.
\<close>

definition obj :: "'a \<times> 'a \<times> 'a \<Rightarrow> 'a entry" where
  "obj v = (case v of (x, y, t) \<Rightarrow>
     \<lparr>d_cpu = Some x, d_gpu = Some y, d_total = Some t, d_initialized = True\<rparr>)"

text \<open>
  The objects that a run of \<^verbatim>\<open>resolveStats\<close> on a tree without nested keys leaves in the store:
  under every key of the tree, the sums of the node with that key that is visited last.
\<close>

fun written :: "'a::plus stats \<Rightarrow> 'a statsData"
  and writtens :: "'a::plus stats list \<Rightarrow> 'a statsData" where
  "written (Stats c a b cs) = (writtens cs)(c \<mapsto> obj (agg (Stats c a b cs)))"
| "writtens [] = Map.empty"
| "writtens (child # rest) = written child ++ writtens rest"

text \<open>The total recorded in the store for the key of a node.\<close>

definition recorded_total :: "'a statsData \<Rightarrow> 'a stats \<Rightarrow> 'a option" where
  "recorded_total sd n = d_total (deref sd (cid n))"

text \<open>
  The node's own \<^verbatim>\<open>cpu + gpu\<close> plus the totals recorded for all of its descendants.
\<close>

definition own_plus_descendants :: "'a::plus statsData \<Rightarrow> 'a stats \<Rightarrow> 'a option" where
  "own_plus_descendants sd n =
     fold (\<lambda>d x. js_add x (recorded_total sd d)) (descendants n) (Some (own n))"

text \<open>The last node with a given key, in the order of the visit.\<close>

definition last_visited :: "nat \<Rightarrow> 'a stats \<Rightarrow> 'a stats" where
  "last_visited k t = last (filter (\<lambda>n. cid n = k) (nodes t))"

text \<open>
  The combined cost of all the nodes that share a key: the sum of their aggregated
  totals.
\<close>

definition combined_total :: "nat \<Rightarrow> 'a::monoid_add stats \<Rightarrow> 'a" where
  "combined_total k t = sum_list (map (\<lambda>n. total3 (agg n)) (filter (\<lambda>n. cid n = k) (nodes t)))"

text \<open>An object of the store whose total is the sum of its two parts.\<close>

definition balanced :: "'a::plus entry \<Rightarrow> bool" where
  "balanced d = (d_total d \<noteq> None \<and> d_total d = js_add (d_cpu d) (d_gpu d))"

definition balanced_at :: "'a::plus statsData \<Rightarrow> nat \<Rightarrow> bool" where
  "balanced_at sd k = (case sd k of None \<Rightarrow> False | Some d \<Rightarrow> balanced d)"

text \<open>An object of the store whose three fields are numbers.\<close>

definition numeric :: "'a entry \<Rightarrow> bool" where
  "numeric d = (d_cpu d \<noteq> None \<and> d_gpu d \<noteq> None \<and> d_total d \<noteq> None)"

definition numeric_at :: "'a statsData \<Rightarrow> nat \<Rightarrow> bool" where
  "numeric_at sd k = (case sd k of None \<Rightarrow> False | Some d \<Rightarrow> numeric d)"

text \<open>A frame record whose total is the sum of its two parts.\<close>

definition frame_balanced :: "'a::plus frame \<Rightarrow> bool" where
  "frame_balanced fr = (f_total fr \<noteq> None \<and> f_total fr = js_add (f_cpu fr) (f_gpu fr))"

subsection \<open>Timers, the inspector, the cache, objects\<close>

text \<open>A timer with its flag clear, the duration \<open>d\<close> and the accumulated time \<open>t\<close>.\<close>

definition timer :: "'a \<Rightarrow> 'a \<Rightarrow> 'a cycle" where
  "timer d t = \<lparr>needsUpdate = False, duration = d, time = t\<rparr>"

text \<open>Neither timer of the inspector asks for a refresh.\<close>

definition idle :: "'a inspector \<Rightarrow> bool" where
  "idle this = (needsUpdate (text_cycle (displayCycle this)) = False
     \<and> needsUpdate (graph_cycle (displayCycle this)) = False)"

text \<open>
  Every cached address holds a bundle made for the node that is its key.
\<close>

definition cache_ok :: "viewer_state \<Rightarrow> bool" where
  "cache_ok s = (\<forall>r a. canvasNodes s r = Some a \<longrightarrow>
     a < length (heap s) \<and> (\<exists>cd. heap s ! a = Bundle cd \<and> cd_node cd = r))"

text \<open>The objects reachable from an address unfold to a finite tree.\<close>

inductive tree_at :: "(nat \<Rightarrow> 'a sample) \<Rightarrow> nat \<Rightarrow> 'a stats \<Rightarrow> bool" where
  "list_all2 (tree_at h) (s_children (h r)) cs \<Longrightarrow>
     tree_at h r (Stats (s_cid (h r)) (s_cpu (h r)) (s_gpu (h r)) cs)"

text \<open>
  The relation between the address of an object and the addresses of its children.
\<close>

definition child_rel :: "(nat \<Rightarrow> 'a sample) \<Rightarrow> (nat \<times> nat) set" where
  "child_rel h = {(r, r'). r' \<in> set (s_children (h r))}"

section \<open>Examples\<close>

text \<open>
  Frame A starts at 0 and has one child sample with \<^verbatim>\<open>cpu = 2\<close>, \<^verbatim>\<open>gpu = 3\<close>; frame B
  starts at 20; the host knows the two frames. In the second scenario the child has
  \<^verbatim>\<open>cpu = 15\<close>, \<^verbatim>\<open>gpu = 10\<close>.
\<close>

definition frameA :: "real frame" where
  "frameA = \<lparr>frameId = 0, startTime = 0, f_children = [Stats 0 2 3 []],
     f_cpu = None, f_gpu = None, f_total = None, f_deltaTime = None, f_miscellaneous = None\<rparr>"

definition frameA' :: "real frame" where
  "frameA' = \<lparr>frameId = 0, startTime = 0, f_children = [Stats 0 15 10 []],
     f_cpu = None, f_gpu = None, f_total = None, f_deltaTime = None, f_miscellaneous = None\<rparr>"

definition frameB :: "real frame" where
  "frameB = \<lparr>frameId = 1, startTime = 20, f_children = [],
     f_cpu = None, f_gpu = None, f_total = None, f_deltaTime = None, f_miscellaneous = None\<rparr>"

definition getFrameAB :: "nat \<Rightarrow> real frame option" where
  "getFrameAB i = (if i = 1 then Some frameB else None)"

text \<open>
  Frames over \<open>number\<close>: frame N has one child sample with \<^verbatim>\<open>cpu = NaN\<close>, frame I one
  with \<^verbatim>\<open>cpu = Infinity\<close>; \<open>getFrameN start\<close> is a host that knows one more frame,
  which starts at \<open>start\<close>. \<open>inspectorN\<close> has the fields the constructor sets.
\<close>

definition frameN :: "number frame" where
  "frameN = \<lparr>frameId = 0, startTime = Num 0, f_children = [Stats 0 NaN (Num 3) []],
     f_cpu = None, f_gpu = None, f_total = None, f_deltaTime = None, f_miscellaneous = None\<rparr>"

definition frameI :: "number frame" where
  "frameI = \<lparr>frameId = 0, startTime = Num 0, f_children = [Stats 0 Infinity (Num 3) []],
     f_cpu = None, f_gpu = None, f_total = None, f_deltaTime = None, f_miscellaneous = None\<rparr>"

definition getFrameN :: "number \<Rightarrow> nat \<Rightarrow> number frame option" where
  "getFrameN start i =
    (if i = 1
     then Some \<lparr>frameId = 1, startTime = start, f_children = [],
       f_cpu = None, f_gpu = None, f_total = None, f_deltaTime = None, f_miscellaneous = None\<rparr>
     else None)"

definition inspectorN :: "number inspector" where
  "inspectorN =
    \<lparr>deltaTime = 0,
     softDeltaTime = 0,
     statsData = Map.empty,
     displayCycle =
       \<lparr>text_cycle = \<lparr>needsUpdate = False, duration = Num (1 / 4), time = 0\<rparr>,
        graph_cycle = \<lparr>needsUpdate = False, duration = Num (1 / 20), time = 0\<rparr>\<rparr>,
     ui_calls = []\<rparr>"

text \<open>
  An environment and three node values for the examples: \<open>nodeP'\<close> is the object
  \<open>nodeP\<close> after it has lost its name, \<open>nodeQ\<close> is another object.
\<close>

definition env0 :: env where
  "env0 = \<lparr>devicePixelRatio = 2, outputColorSpace = ''srgb'',
     splitPath = (\<lambda>s. ([], s)), splitCamelCase = (\<lambda>s. s)\<rparr>"

definition nodeP :: node where
  "nodeP = \<lparr>node_ref = 1, node_id = 7, getName = Some ''normalView''\<rparr>"

definition nodeP' :: node where
  "nodeP' = \<lparr>node_ref = 1, node_id = 7, getName = None\<rparr>"

definition nodeQ :: node where
  "nodeQ = \<lparr>node_ref = 2, node_id = 8, getName = Some ''uv''\<rparr>"

text \<open>
  Two stores of objects for the examples: a root with two leaves, and a node that is
  its own child.
\<close>

definition objects3 :: "nat \<Rightarrow> real sample" where
  "objects3 r =
    (if r = 0 then \<lparr>s_cid = 0, s_cpu = 1, s_gpu = 2, s_children = [1, 2]\<rparr>
     else if r = 1 then \<lparr>s_cid = 1, s_cpu = 3, s_gpu = 4, s_children = []\<rparr>
     else \<lparr>s_cid = 2, s_cpu = 5, s_gpu = 6, s_children = []\<rparr>)"

definition looped :: "nat \<Rightarrow> real sample" where
  "looped r = \<lparr>s_cid = 0, s_cpu = 1, s_gpu = 1, s_children = [0]\<rparr>"

section \<open>Properties of resolveStats\<close>

lemma seed_eq: "seed c a b sd = sd(c \<mapsto> obj (a, b, a + b))"
  by (auto simp: seed_def getStatsData_def deref_def assign_def new_object_def obj_def Let_def
      split: option.splits)

lemma addChild_eq:
  assumes "sd c = Some (obj p)" "sd cc = Some (obj q)" "c \<noteq> cc"
  shows "addChild c cc sd = sd(c \<mapsto> obj (add3 p q))"
  using assms
  by (cases p; cases q) (auto simp: addChild_def getStatsData_def deref_def assign_def obj_def add3_def Let_def)

lemma addChild_alias:
  assumes "sd c = Some (obj p)"
  shows "addChild c c sd = sd(c \<mapsto> obj (add3 p p))"
  using assms
  by (cases p) (auto simp: addChild_def getStatsData_def deref_def assign_def obj_def add3_def Let_def)

lemma cid_in_nodes: "cid t \<in> cid ` set (nodes t)"
  by (cases t) simp

lemma self_in_nodes: "n \<in> set (nodes n)"
  by (cases n) simp

lemma children_in_forest: "ch \<in> set cs \<Longrightarrow> ch \<in> set (forest cs)"
  by (induction cs) (auto simp: self_in_nodes)

lemma forest_iff: "n \<in> set (forest ts) \<longleftrightarrow> (\<exists>ch\<in>set ts. n \<in> set (nodes ch))"
  by (induction ts) auto

lemma nodes_closed:
  "n \<in> set (nodes (t::'a stats)) \<Longrightarrow> set (nodes n) \<subseteq> set (nodes t)"
  "n \<in> set (forest (ts::'a stats list)) \<Longrightarrow> set (nodes n) \<subseteq> set (forest ts)"
  by (induction t and ts rule: nodes_forest.induct) auto

lemma dom_written: "dom (written (t::'a::plus stats)) = cids t"
  and dom_writtens: "dom (writtens (ts::'a::plus stats list)) = cid ` set (forest ts)"
proof (induction t and ts rule: written_writtens.induct)
  case (1 c a b cs)
  have "dom (written (Stats c a b cs)) = insert c (dom (writtens cs))"
    by (simp only: written.simps dom_fun_upd option.simps if_False)
  with 1 show ?case by (simp del: written.simps add: cids_def)
next
  case 2
  then show ?case by simp
next
  case (3 child rest)
  then show ?case by (auto simp: cids_def)
qed

lemma written_root: "written t (cid t) = Some (obj (agg t))"
  by (cases t) simp

lemma map_join: "((m ++ w1)(c \<mapsto> v) ++ w2)(c \<mapsto> v') = (m ++ (w1 ++ w2))(c \<mapsto> v')"
  by (auto simp: fun_eq_iff map_add_def split: option.splits)

lemma resolve_written:
  "nest_free (t::'a::plus stats) \<Longrightarrow> resolveStats sd t = sd ++ written t"
  "list_all nest_free ts \<Longrightarrow> c \<notin> cid ` set (forest ts) \<Longrightarrow> sd c = Some (obj acc)
     \<Longrightarrow> resolveChildren c sd ts = (sd ++ writtens ts)(c \<mapsto> obj (aggs acc ts))"
proof (induction sd t and c sd ts arbitrary: and acc rule: resolveStats_resolveChildren.induct)
  case (1 sd c a b cs)
  have "resolveChildren c (seed c a b sd) cs =
      (seed c a b sd ++ writtens cs)(c \<mapsto> obj (aggs (a, b, a + b) cs))"
    using "1.prems" by (intro "1.IH") (auto simp: seed_eq)
  then show ?case
    by (auto simp: seed_eq map_add_def fun_eq_iff split: option.splits)
next
  case (2 c sd)
  then show ?case by auto
next
  case (3 c sd child rest)
  let ?s1 = "resolveStats sd child"
  have nf: "nest_free child" and nfr: "list_all nest_free rest"
    and c1: "c \<notin> cid ` set (nodes child)" and c2: "c \<notin> cid ` set (forest rest)"
    using "3.prems" by auto
  have s1: "?s1 = sd ++ written child" using nf by (rule "3.IH"(1))
  have nd: "c \<notin> dom (written child)" using c1 by (simp add: dom_written cids_def)
  have pc: "?s1 c = Some (obj acc)"
    using nd "3.prems"(3) by (simp add: s1 map_add_def domIff split: option.splits)
  have cc: "?s1 (cid child) = Some (obj (agg child))"
    by (simp add: s1 written_root)
  have ne: "c \<noteq> cid child" using c1 cid_in_nodes[of child] by auto
  have s2: "addChild c (cid child) ?s1 = ?s1(c \<mapsto> obj (add3 acc (agg child)))"
    using pc cc ne by (rule addChild_eq)
  have "resolveChildren c (addChild c (cid child) ?s1) rest =
      (addChild c (cid child) ?s1 ++ writtens rest)(c \<mapsto> obj (aggs (add3 acc (agg child)) rest))"
    using nfr c2 by (rule "3.IH"(2)) (simp add: s2)
  then have "resolveChildren c sd (child # rest) =
      ((sd ++ written child)(c \<mapsto> obj (add3 acc (agg child))) ++ writtens rest)
        (c \<mapsto> obj (aggs (add3 acc (agg child)) rest))"
    using s2 by (simp only: resolveChildren.simps s1)
  then show ?case
    by (simp only: map_join writtens.simps aggs.simps)
qed

lemma written_last:
  "nest_free (t::'a::plus stats) \<Longrightarrow> k \<in> cid ` set (nodes t)
     \<Longrightarrow> written t k = Some (obj (agg (last (filter (\<lambda>n. cid n = k) (nodes t)))))"
  "list_all nest_free (ts::'a::plus stats list) \<Longrightarrow> k \<in> cid ` set (forest ts)
     \<Longrightarrow> writtens ts k = Some (obj (agg (last (filter (\<lambda>n. cid n = k) (forest ts)))))"
proof (induction t and ts rule: written_writtens.induct)
  case (1 c a b cs)
  show ?case
  proof (cases "k = c")
    case True
    have "filter (\<lambda>n. cid n = k) (forest cs) = []"
      using "1.prems"(1) True by (auto simp: filter_empty_conv)
    then show ?thesis using True by simp
  next
    case False
    then have "k \<in> cid ` set (forest cs)" using "1.prems"(2) by auto
    moreover have "list_all nest_free cs" using "1.prems"(1) by simp
    ultimately have "writtens cs k = Some (obj (agg (last (filter (\<lambda>n. cid n = k) (forest cs)))))"
      by (intro "1.IH")
    then show ?thesis using False by simp
  qed
next
  case 2
  then show ?case by simp
next
  case (3 child rest)
  have nf: "nest_free child" and nfr: "list_all nest_free rest" using "3.prems"(1) by auto
  show ?case
  proof (cases "k \<in> cid ` set (forest rest)")
    case True
    then have w: "writtens rest k = Some (obj (agg (last (filter (\<lambda>n. cid n = k) (forest rest)))))"
      using nfr by (intro "3.IH"(2))
    have "filter (\<lambda>n. cid n = k) (forest rest) \<noteq> []"
      using True by (auto simp: filter_empty_conv)
    then show ?thesis using w by (simp add: map_add_def)
  next
    case False
    then have e: "filter (\<lambda>n. cid n = k) (forest rest) = []"
      by (auto simp: filter_empty_conv)
    have "k \<notin> dom (writtens rest)" using False by (simp add: dom_writtens)
    then have n: "writtens rest k = None" by (simp add: domIff)
    have "k \<in> cid ` set (nodes child)" using False "3.prems"(2) by auto
    then have "written child k = Some (obj (agg (last (filter (\<lambda>n. cid n = k) (nodes child)))))"
      using nf by (intro "3.IH"(1))
    then show ?thesis using n e by (simp add: map_add_def)
  qed
qed

lemma distinct_nest_free:
  "distinct (map cid (nodes (t::'a stats))) \<Longrightarrow> nest_free t"
  "distinct (map cid (forest (ts::'a stats list))) \<Longrightarrow> list_all nest_free ts"
  by (induction t and ts rule: nodes_forest.induct) auto

lemma distinct_filter_single:
  "distinct (map f xs) \<Longrightarrow> x \<in> set xs \<Longrightarrow> filter (\<lambda>y. f y = f x) xs = [x]"
proof (induction xs)
  case Nil
  then show ?case by simp
next
  case (Cons y ys)
  show ?case
  proof (cases "x = y")
    case True
    have "f y \<notin> f ` set ys" using Cons.prems(1) by simp
    then have "\<forall>z\<in>set ys. f z \<noteq> f y" by (metis imageI)
    then have "filter (\<lambda>z. f z = f x) ys = []"
      using True by (simp add: filter_empty_conv)
    then show ?thesis using True by simp
  next
    case False
    then have "x \<in> set ys" using Cons.prems(2) by simp
    moreover have "f y \<noteq> f x" using Cons.prems(1) \<open>x \<in> set ys\<close> by auto
    ultimately show ?thesis using Cons by simp
  qed
qed

lemma recorded_distinct:
  fixes t :: "'a::plus stats"
  assumes "distinct (map cid (nodes t))" and "n \<in> set (nodes t)"
  shows "resolveStats sd t (cid n) = Some (obj (agg n))"
proof -
  have nf: "nest_free t" using assms(1) by (rule distinct_nest_free(1))
  have k: "cid n \<in> cid ` set (nodes t)" using assms(2) by simp
  have "filter (\<lambda>m. cid m = cid n) (nodes t) = [n]"
    using assms by (rule distinct_filter_single)
  then have "written t (cid n) = Some (obj (agg n))"
    using written_last(1)[OF nf k] by simp
  then show ?thesis using nf by (simp add: resolve_written(1) map_add_def)
qed

lemma recorded_total_obj: "sd (cid n) = Some (obj v) \<Longrightarrow> recorded_total sd n = Some (total3 v)"
  by (cases v) (simp add: recorded_total_def deref_def obj_def total3_def)

lemma total3_aggs:
  "total3 (aggs acc (cs::'a::plus stats list)) = fold (\<lambda>ch x. x + total3 (agg ch)) cs (total3 acc)"
  by (induction cs arbitrary: acc) (auto simp: total3_def add3_def split: prod.splits)

lemma fold_recorded:
  fixes cs :: "'a::plus stats list"
  assumes "\<And>ch. ch \<in> set cs \<Longrightarrow> recorded_total sd ch = Some (total3 (agg ch))"
  shows "fold (\<lambda>ch x. js_add x (recorded_total sd ch)) cs (Some v)
       = Some (fold (\<lambda>ch x. x + total3 (agg ch)) cs v)"
  using assms by (induction cs arbitrary: v) simp_all

lemma total3_agg_fold:
  "total3 (agg (n::'a::plus stats)) = fold (\<lambda>ch x. x + total3 (agg ch)) (children n) (own n)"
  by (cases n) (simp add: total3_aggs, simp add: total3_def own_def)

lemma total3_agg_sum:
  "total3 (agg (t::'a::monoid_add stats)) = sum_list (map own (nodes t))"
  "total3 (aggs acc (ts::'a::monoid_add stats list)) = total3 acc + sum_list (map own (forest ts))"
proof (induction t and acc ts rule: agg_aggs.induct)
  case (1 c a b cs)
  then show ?case by (simp add: total3_def own_def)
next
  case (2 acc)
  then show ?case by simp
next
  case (3 acc child rest)
  have "total3 (add3 acc (agg child)) = total3 acc + total3 (agg child)"
    by (simp add: total3_def add3_def split: prod.splits)
  with 3 show ?case by (simp add: add.assoc)
qed

lemma own_plus_children:
  fixes t :: "'a::plus stats"
  assumes "distinct (map cid (nodes t))" and "n \<in> set (nodes t)"
  shows "recorded_total (resolveStats sd t) n =
     fold (\<lambda>ch x. js_add x (recorded_total (resolveStats sd t) ch)) (children n) (Some (own n))"
proof -
  let ?S = "resolveStats sd t"
  have sub: "set (nodes n) \<subseteq> set (nodes t)" using assms(2) by (rule nodes_closed(1))
  have ch: "recorded_total ?S ch = Some (total3 (agg ch))" if "ch \<in> set (children n)" for ch
  proof -
    have "ch \<in> set (forest (children n))" using that by (rule children_in_forest)
    then have "ch \<in> set (nodes n)" by (cases n) simp
    then have "ch \<in> set (nodes t)" using sub by auto
    then have "?S (cid ch) = Some (obj (agg ch))" using assms(1) by (intro recorded_distinct)
    then show ?thesis by (rule recorded_total_obj)
  qed
  have "?S (cid n) = Some (obj (agg n))" using assms by (rule recorded_distinct)
  then have "recorded_total ?S n = Some (total3 (agg n))" by (rule recorded_total_obj)
  also have "\<dots> = Some (fold (\<lambda>ch x. x + total3 (agg ch)) (children n) (own n))"
    by (rule arg_cong[OF total3_agg_fold])
  also have "\<dots> = fold (\<lambda>ch x. js_add x (recorded_total ?S ch)) (children n) (Some (own n))"
    using ch by (rule fold_recorded[symmetric])
  finally show ?thesis .
qed

lemma recorded_sum:
  fixes t :: "'a::monoid_add stats"
  assumes "distinct (map cid (nodes t))" and "n \<in> set (nodes t)"
  shows "recorded_total (resolveStats sd t) n = Some (sum_list (map own (nodes n)))"
proof -
  have "resolveStats sd t (cid n) = Some (obj (agg n))" using assms by (rule recorded_distinct)
  then have "recorded_total (resolveStats sd t) n = Some (total3 (agg n))"
    by (rule recorded_total_obj)
  then show ?thesis by (simp only: total3_agg_sum(1))
qed

subsection \<open>Reordered trees\<close>

lemma mset_forest:
  "image_mset g (mset (forest ts)) = sum_mset (image_mset (\<lambda>t. image_mset g (mset (nodes t))) (mset ts))"
  by (induction ts) auto

lemma list_all2_map_eq:
  "list_all2 (\<lambda>x y. P x y \<and> M y = M x) xs ys \<Longrightarrow> map M ys = map M xs"
  by (induction xs ys rule: list_all2_induct) auto

lemma list_all2_weaken: "list_all2 (\<lambda>x y. P x y \<and> Q x y) xs ys \<Longrightarrow> list_all2 P xs ys"
  by (induction xs ys rule: list_all2_induct) auto

lemma list_all2_pick:
  "list_all2 R xs ys \<Longrightarrow> x \<in> set xs \<Longrightarrow> \<exists>y\<in>set ys. R x y"
  by (induction xs ys rule: list_all2_induct) auto

lemma reorder_labels:
  "reorder t t' \<Longrightarrow> mset (map label (nodes t')) = mset (map label (nodes t))"
proof (induction rule: reorder.induct)
  case (1 cs ds ds' c a b)
  let ?M = "\<lambda>t. mset (map label (nodes t))"
  have "map ?M ds = map ?M cs" using "1.IH" by (rule list_all2_map_eq)
  then have "image_mset ?M (mset ds) = image_mset ?M (mset cs)"
    by (metis mset_map)
  then have "image_mset label (mset (forest ds')) = image_mset label (mset (forest cs))"
    using "1.hyps" by (simp add: mset_forest)
  moreover have "label (Stats c a b ds') = label (Stats c a b cs)" by (simp add: label_def)
  ultimately show ?case by simp
qed

lemma reorder_cids: "reorder t t' \<Longrightarrow> mset (map cid (nodes t')) = mset (map cid (nodes t))"
proof -
  assume "reorder t t'"
  then have "image_mset fst (mset (map label (nodes t'))) = image_mset fst (mset (map label (nodes t)))"
    by (simp only: reorder_labels)
  then show ?thesis by (simp add: label_def comp_def image_mset.compositionality)
qed

lemma reorder_owns:
  "reorder t t' \<Longrightarrow> mset (map own (nodes t')) = mset (map own (nodes (t::'a::plus stats)))"
proof -
  assume "reorder t t'"
  then have "image_mset (\<lambda>(c, a, b). a + b) (mset (map label (nodes t')))
      = image_mset (\<lambda>(c, a, b). a + b) (mset (map label (nodes t)))"
    by (simp only: reorder_labels)
  moreover have "own = (\<lambda>n::'a stats. cpu n + gpu n)" by (auto simp: own_def fun_eq_iff)
  ultimately show ?thesis by (simp add: label_def comp_def image_mset.compositionality)
qed

lemma reorder_cid: "reorder t t' \<Longrightarrow> cid t' = cid t"
  by (induction rule: reorder.induct) simp

lemma reorder_node:
  "reorder t t' \<Longrightarrow> \<forall>n\<in>set (nodes t). \<exists>n'\<in>set (nodes t'). reorder n n'"
proof (induction rule: reorder.induct)
  case (1 cs ds ds' c a b)
  have top: "reorder (Stats c a b cs) (Stats c a b ds')"
    using list_all2_weaken[OF "1.IH"] "1.hyps" by (rule reorder.intros)
  have sets: "set ds' = set ds" using "1.hyps" by (metis set_mset_mset)
  show ?case
  proof
    fix n assume "n \<in> set (nodes (Stats c a b cs))"
    then consider "n = Stats c a b cs" | "n \<in> set (forest cs)" by auto
    then show "\<exists>n'\<in>set (nodes (Stats c a b ds')). reorder n n'"
    proof cases
      case 1
      then show ?thesis using top by auto
    next
      case 2
      then obtain ch where ch: "ch \<in> set cs" "n \<in> set (nodes ch)" by (auto simp: forest_iff)
      obtain dh where dh: "dh \<in> set ds" "\<forall>n\<in>set (nodes ch). \<exists>n'\<in>set (nodes dh). reorder n n'"
        using list_all2_pick[OF "1.IH" ch(1)] by auto
      then obtain n' where "n' \<in> set (nodes dh)" "reorder n n'" using ch(2) by auto
      moreover have "n' \<in> set (forest ds')" using dh(1) sets \<open>n' \<in> set (nodes dh)\<close>
        by (auto simp: forest_iff)
      ultimately show ?thesis by auto
    qed
  qed
qed

lemma reorder_refl: "reorder t t"
proof (induction t)
  case (Stats c a b cs)
  then have "list_all2 reorder cs cs" by (simp add: list_all2_same)
  then show ?case by (rule reorder.intros) simp
qed

lemma reorder_top: "mset cs = mset cs' \<Longrightarrow> reorder (Stats c a b cs) (Stats c a b cs')"
proof -
  assume "mset cs = mset cs'"
  moreover have "list_all2 reorder cs cs" by (simp add: list_all2_same reorder_refl)
  ultimately show ?thesis by (intro reorder.intros)
qed

lemma recorded_reorder:
  fixes t :: "'a::comm_monoid_add stats"
  assumes d: "distinct (map cid (nodes t))" and n: "n \<in> set (nodes t)" and r: "reorder t t'"
  shows "recorded_total (resolveStats sd' t') n = recorded_total (resolveStats sd t) n"
proof -
  have "mset (map cid (nodes t')) = mset (map cid (nodes t))" using r by (rule reorder_cids)
  then have d': "distinct (map cid (nodes t'))" using d by (metis mset_eq_imp_distinct_iff)
  obtain n' where n': "n' \<in> set (nodes t')" "reorder n n'"
    using reorder_node[OF r] n by blast
  have c: "cid n' = cid n" using n'(2) by (rule reorder_cid)
  have "recorded_total (resolveStats sd' t') n = recorded_total (resolveStats sd' t') n'"
    by (simp add: recorded_total_def c)
  also have "\<dots> = Some (sum_list (map own (nodes n')))" using d' n'(1) by (rule recorded_sum)
  also have "sum_list (map own (nodes n')) = sum_mset (mset (map own (nodes n')))"
    by (simp only: sum_mset_sum_list)
  also have "mset (map own (nodes n')) = mset (map own (nodes n))"
    using n'(2) by (rule reorder_owns)
  also have "sum_mset (mset (map own (nodes n))) = sum_list (map own (nodes n))"
    by (simp only: sum_mset_sum_list)
  also have "Some (sum_list (map own (nodes n))) = recorded_total (resolveStats sd t) n"
    using d n by (rule recorded_sum[symmetric])
  finally show ?thesis .
qed

subsection \<open>Balanced objects\<close>

lemma seed_balanced_self: "balanced_at (seed c a b sd) c"
  by (simp add: seed_eq balanced_at_def balanced_def obj_def)

lemma seed_balanced_other: "balanced_at sd k \<Longrightarrow> balanced_at (seed c a b sd) k"
  by (simp add: seed_eq balanced_at_def balanced_def obj_def)

lemma addChild_balanced:
  fixes sd :: "'a::ab_semigroup_add statsData"
  assumes "balanced_at sd c" and "balanced_at sd cc" and "balanced_at sd k"
  shows "balanced_at (addChild c cc sd) k"
proof -
  obtain p where p: "sd c = Some p" "balanced p"
    using assms(1) by (auto simp: balanced_at_def split: option.splits)
  obtain q where q: "sd cc = Some q" "balanced q"
    using assms(2) by (auto simp: balanced_at_def split: option.splits)
  obtain x y where pf: "d_cpu p = Some x" "d_gpu p = Some y" "d_total p = Some (x + y)"
    using p(2) by (cases "d_cpu p"; cases "d_gpu p") (auto simp: balanced_def)
  obtain x' y' where qf: "d_cpu q = Some x'" "d_gpu q = Some y'" "d_total q = Some (x' + y')"
    using q(2) by (cases "d_cpu q"; cases "d_gpu q") (auto simp: balanced_def)
  show ?thesis
  proof (cases "k = c")
    case False
    then have "addChild c cc sd k = sd k"
      using q(1) by (simp add: addChild_def getStatsData_def assign_def Let_def)
    then show ?thesis using assms(3) by (simp add: balanced_at_def)
  next
    case True
    show ?thesis
    proof (cases "c = cc")
      case False
      then have "addChild c cc sd c =
          Some (p\<lparr>d_cpu := Some (x + x'), d_gpu := Some (y + y'), d_total := Some (x + y + (x' + y'))\<rparr>)"
        using p(1) q(1) pf qf
        by (simp add: addChild_def getStatsData_def assign_def deref_def Let_def)
      then show ?thesis using True
        by (simp add: balanced_at_def balanced_def ac_simps)
    next
      case same: True
      then have "p = q" using p(1) q(1) by simp
      then have "addChild c cc sd c =
          Some (p\<lparr>d_cpu := Some (x + x), d_gpu := Some (y + y), d_total := Some (x + y + (x + y))\<rparr>)"
        using same p(1) pf
        by (simp add: addChild_def getStatsData_def assign_def deref_def Let_def)
      then show ?thesis using True
        by (simp add: balanced_at_def balanced_def ac_simps)
    qed
  qed
qed

lemma resolve_balanced:
  fixes sd :: "'a::ab_semigroup_add statsData"
  shows "(\<And>k. k \<in> K \<Longrightarrow> balanced_at sd k)
      \<Longrightarrow> k \<in> K \<union> cid ` set (nodes t) \<Longrightarrow> balanced_at (resolveStats sd t) k"
    and "(\<And>k. k \<in> K \<Longrightarrow> balanced_at sd k) \<Longrightarrow> c \<in> K
      \<Longrightarrow> k \<in> K \<union> cid ` set (forest ts) \<Longrightarrow> balanced_at (resolveChildren c sd ts) k"
proof (induction sd t and c sd ts arbitrary: K k and K k rule: resolveStats_resolveChildren.induct)
  case (1 sd c a b cs)
  let ?s = "seed c a b sd"
  have s: "balanced_at ?s j" if "j \<in> insert c K" for j
  proof (cases "j = c")
    case True
    then show ?thesis by (simp add: seed_balanced_self)
  next
    case False
    then have "balanced_at sd j" using that "1.prems"(1) by simp
    then show ?thesis by (rule seed_balanced_other)
  qed
  have "balanced_at (resolveChildren c ?s cs) k"
    using s "1.prems"(2) by (intro "1.IH"[where K = "insert c K"]) auto
  then show ?case by simp
next
  case (2 c sd)
  then show ?case by simp
next
  case (3 c sd child rest)
  let ?K = "K \<union> cid ` set (nodes child)"
  let ?s1 = "resolveStats sd child"
  have s1: "balanced_at ?s1 j" if "j \<in> ?K" for j
    using "3.prems"(1) that by (rule "3.IH"(1))
  have cK: "c \<in> ?K" and ccK: "cid child \<in> ?K"
    using "3.prems"(2) cid_in_nodes[of child] by auto
  have s2: "balanced_at (addChild c (cid child) ?s1) j" if "j \<in> ?K" for j
    using s1[OF cK] s1[OF ccK] s1[OF that] by (rule addChild_balanced)
  have "balanced_at (resolveChildren c (addChild c (cid child) ?s1) rest) k"
    using s2 cK "3.prems"(3) by (intro "3.IH"(2)[where K = ?K]) auto
  then show ?case by simp
qed

subsection \<open>Numeric objects\<close>

text \<open>
  Whatever the numbers are, every object that the aggregation writes ends with three
  fields that are numbers: no field is left absent.
\<close>

lemma seed_numeric_self: "numeric_at (seed c a b sd) c"
  by (simp add: seed_eq numeric_at_def numeric_def obj_def)

lemma seed_numeric_other: "numeric_at sd k \<Longrightarrow> numeric_at (seed c a b sd) k"
  by (simp add: seed_eq numeric_at_def numeric_def obj_def)

lemma addChild_numeric:
  assumes "numeric_at sd c" and "numeric_at sd cc" and "numeric_at sd k"
  shows "numeric_at (addChild c cc sd) k"
proof -
  obtain p where p: "sd c = Some p" "numeric p"
    using assms(1) by (auto simp: numeric_at_def split: option.splits)
  obtain q where q: "sd cc = Some q" "numeric q"
    using assms(2) by (auto simp: numeric_at_def split: option.splits)
  obtain r where r: "sd k = Some r" "numeric r"
    using assms(3) by (auto simp: numeric_at_def split: option.splits)
  show ?thesis
    using p q r
    by (auto simp: addChild_def getStatsData_def assign_def deref_def Let_def numeric_at_def
        numeric_def)
qed

lemma resolve_numeric:
  shows "(\<And>k. k \<in> K \<Longrightarrow> numeric_at sd k)
      \<Longrightarrow> k \<in> K \<union> cid ` set (nodes t) \<Longrightarrow> numeric_at (resolveStats sd t) k"
    and "(\<And>k. k \<in> K \<Longrightarrow> numeric_at sd k) \<Longrightarrow> c \<in> K
      \<Longrightarrow> k \<in> K \<union> cid ` set (forest ts) \<Longrightarrow> numeric_at (resolveChildren c sd ts) k"
proof (induction sd t and c sd ts arbitrary: K k and K k rule: resolveStats_resolveChildren.induct)
  case (1 sd c a b cs)
  let ?s = "seed c a b sd"
  have s: "numeric_at ?s j" if "j \<in> insert c K" for j
  proof (cases "j = c")
    case True
    then show ?thesis by (simp add: seed_numeric_self)
  next
    case False
    then have "numeric_at sd j" using that "1.prems"(1) by simp
    then show ?thesis by (rule seed_numeric_other)
  qed
  have "numeric_at (resolveChildren c ?s cs) k"
    using s "1.prems"(2) by (intro "1.IH"[where K = "insert c K"]) auto
  then show ?case by simp
next
  case (2 c sd)
  then show ?case by simp
next
  case (3 c sd child rest)
  let ?K = "K \<union> cid ` set (nodes child)"
  let ?s1 = "resolveStats sd child"
  have s1: "numeric_at ?s1 j" if "j \<in> ?K" for j
    using "3.prems"(1) that by (rule "3.IH"(1))
  have cK: "c \<in> ?K" and ccK: "cid child \<in> ?K"
    using "3.prems"(2) cid_in_nodes[of child] by auto
  have s2: "numeric_at (addChild c (cid child) ?s1) j" if "j \<in> ?K" for j
    using s1[OF cK] s1[OF ccK] s1[OF that] by (rule addChild_numeric)
  have "numeric_at (resolveChildren c (addChild c (cid child) ?s1) rest) k"
    using s2 cK "3.prems"(3) by (intro "3.IH"(2)[where K = ?K]) auto
  then show ?case by simp
qed

section \<open>Properties of binary64 addition\<close>

text \<open>
  Integers of less than 54 binary digits are not rounded: on them \<^verbatim>\<open>+\<close> is exact.
\<close>

lemma bit_length_le: "i < 2 ^ k \<Longrightarrow> bit_length i \<le> k"
proof (induction k arbitrary: i)
  case 0
  then show ?case by (simp add: bit_length.simps)
next
  case (Suc k)
  show ?case
  proof (cases "i \<le> 0")
    case True
    then show ?thesis by (simp add: bit_length.simps)
  next
    case False
    have "i div 2 < 2 ^ k" using Suc.prems by simp
    then have "bit_length (i div 2) \<le> k" by (rule Suc.IH)
    then show ?thesis using False by (subst bit_length.simps) simp
  qed
qed

lemma round53_small: "\<bar>i\<bar> < 2 ^ 53 \<Longrightarrow> round53 i = i"
proof -
  assume a: "\<bar>i\<bar> < 2 ^ 53"
  then have "bit_length \<bar>i\<bar> \<le> 53" by (rule bit_length_le)
  then have e: "bit_length \<bar>i\<bar> - 53 = 0" by simp
  have "round53 i = sgn i * \<bar>i\<bar>"
    unfolding round53_def Let_def e by simp
  also have "\<dots> = i" by (simp add: sgn_if)
  finally show ?thesis .
qed

lemma representable_examples:
  "round53 0 = 0 \<and> round53 1 = 1 \<and> round53 2 = 2
   \<and> round53 9007199254740992 = 9007199254740992
   \<and> round53 9007199254740994 = 9007199254740994
   \<and> round53 9007199254740993 = 9007199254740992"
  by code_simp

lemma double_add_exact: "\<bar>val x + val y\<bar> < 2 ^ 53 \<Longrightarrow> x + y = Double (val x + val y)"
  by (simp add: plus_double_def round53_small)

section \<open>Properties of the special values\<close>

text \<open>
  Two laws of the order that \<open>number\<close> shares with exact arithmetic.
\<close>

lemma number_zero_irrefl: "\<not> (0::number) < 0"
  by (simp add: zero_number_def)

lemma number_sub_less: "x < y \<Longrightarrow> x - y < (0::number)"
  by (cases x; cases y) (simp_all add: zero_number_def)

section \<open>C1: the tree sum\<close>

text \<open>
  C1 says that, for every node of every tree, the total recorded for the node is its own
  \<^verbatim>\<open>cpu + gpu\<close> plus the sum of the totals recorded for all of its descendants, whatever
  the order of siblings. Three runs show what fails. Two siblings that share the key 1:
  the total recorded for the first, a leaf with the sample 2, is 3. A chain of three
  nodes with the samples 1, 1, 1 and distinct keys: the total recorded for the root is 3,
  its own total plus the totals recorded for its two descendants is 1 + 2 + 1 = 4 (the
  total of the grandchild is already part of the total of the child). Three siblings
  with the samples 2^53, 1, 1 in binary64: visited in this order the root's total is
  2^53, visited as 1, 1, 2^53 it is 2^53 + 2, since 2^53 + 1 rounds to 2^53.
\<close>

theorem tree_sum_counterexample:
  "recorded_total (resolveStats Map.empty (Stats 0 1 0 [Stats 1 2 0 [], Stats 1 3 0 []] :: real stats))
        (Stats 1 2 0 []) = Some 3
   \<and> own_plus_descendants (resolveStats Map.empty (Stats 0 1 0 [Stats 1 2 0 [], Stats 1 3 0 []] :: real stats))
        (Stats 1 2 0 []) = Some 2
   \<and> recorded_total (resolveStats Map.empty (Stats 0 1 0 [Stats 1 1 0 [Stats 2 1 0 []]] :: real stats))
        (Stats 0 1 0 [Stats 1 1 0 [Stats 2 1 0 []]]) = Some 3
   \<and> own_plus_descendants (resolveStats Map.empty (Stats 0 1 0 [Stats 1 1 0 [Stats 2 1 0 []]] :: real stats))
        (Stats 0 1 0 [Stats 1 1 0 [Stats 2 1 0 []]]) = Some 4
   \<and> reorder
        (Stats 0 (Double 0) (Double 0)
          [Stats 1 (Double 9007199254740992) (Double 0) [], Stats 2 (Double 1) (Double 0) [],
           Stats 3 (Double 1) (Double 0) []])
        (Stats 0 (Double 0) (Double 0)
          [Stats 2 (Double 1) (Double 0) [], Stats 3 (Double 1) (Double 0) [],
           Stats 1 (Double 9007199254740992) (Double 0) []])
   \<and> d_total (deref (resolveStats Map.empty
        (Stats 0 (Double 0) (Double 0)
          [Stats 1 (Double 9007199254740992) (Double 0) [], Stats 2 (Double 1) (Double 0) [],
           Stats 3 (Double 1) (Double 0) []])) 0)
      = Some (Double 9007199254740992)
   \<and> d_total (deref (resolveStats Map.empty
        (Stats 0 (Double 0) (Double 0)
          [Stats 2 (Double 1) (Double 0) [], Stats 3 (Double 1) (Double 0) [],
           Stats 1 (Double 9007199254740992) (Double 0) []])) 0)
      = Some (Double 9007199254740994)"
proof -
  have shared:
    "recorded_total (resolveStats Map.empty (Stats 0 1 0 [Stats 1 2 0 [], Stats 1 3 0 []] :: real stats))
        (Stats 1 2 0 []) = Some 3"
    "own_plus_descendants (resolveStats Map.empty (Stats 0 1 0 [Stats 1 2 0 [], Stats 1 3 0 []] :: real stats))
        (Stats 1 2 0 []) = Some 2"
    by (simp_all add: seed_eq addChild_def getStatsData_def deref_def assign_def obj_def
        recorded_total_def own_plus_descendants_def descendants_def own_def)
  have chain:
    "recorded_total (resolveStats Map.empty (Stats 0 1 0 [Stats 1 1 0 [Stats 2 1 0 []]] :: real stats))
        (Stats 0 1 0 [Stats 1 1 0 [Stats 2 1 0 []]]) = Some 3"
    "own_plus_descendants (resolveStats Map.empty (Stats 0 1 0 [Stats 1 1 0 [Stats 2 1 0 []]] :: real stats))
        (Stats 0 1 0 [Stats 1 1 0 [Stats 2 1 0 []]]) = Some 4"
    by (simp_all add: seed_eq addChild_def getStatsData_def deref_def assign_def obj_def
        recorded_total_def own_plus_descendants_def descendants_def own_def)
  have perm: "reorder
        (Stats 0 (Double 0) (Double 0)
          [Stats 1 (Double 9007199254740992) (Double 0) [], Stats 2 (Double 1) (Double 0) [],
           Stats 3 (Double 1) (Double 0) []])
        (Stats 0 (Double 0) (Double 0)
          [Stats 2 (Double 1) (Double 0) [], Stats 3 (Double 1) (Double 0) [],
           Stats 1 (Double 9007199254740992) (Double 0) []])"
    by (rule reorder_top) simp
  have rounded:
    "d_total (deref (resolveStats Map.empty
        (Stats 0 (Double 0) (Double 0)
          [Stats 1 (Double 9007199254740992) (Double 0) [], Stats 2 (Double 1) (Double 0) [],
           Stats 3 (Double 1) (Double 0) []])) 0)
      = Some (Double 9007199254740992)"
    "d_total (deref (resolveStats Map.empty
        (Stats 0 (Double 0) (Double 0)
          [Stats 2 (Double 1) (Double 0) [], Stats 3 (Double 1) (Double 0) [],
           Stats 1 (Double 9007199254740992) (Double 0) []])) 0)
      = Some (Double 9007199254740994)"
    by code_simp+
  show ?thesis
    using shared chain perm rounded by (intro conjI)
qed

text \<open>
  C1, amended: in a tree whose nodes have pairwise distinct keys, after
  \<^verbatim>\<open>resolveStats\<close> the total recorded for every node is its own \<^verbatim>\<open>cpu + gpu\<close> plus the
  totals recorded for its children, added in the order of the children; where addition
  is exact (associative and commutative, with 0 neutral) this is the sum of
  \<^verbatim>\<open>cpu + gpu\<close> over the node and all of its descendants, and it is the same for every
  reordering of siblings, at any depth, and every store the run starts from.
\<close>

theorem tree_sum:
  fixes t :: "'a::comm_monoid_add stats"
  assumes "distinct (map cid (nodes t))" and "n \<in> set (nodes t)"
  shows "recorded_total (resolveStats sd t) n =
       fold (\<lambda>ch x. js_add x (recorded_total (resolveStats sd t) ch)) (children n) (Some (own n))
     \<and> recorded_total (resolveStats sd t) n = Some (sum_list (map own (nodes n)))
     \<and> (\<forall>t' sd'. reorder t t' \<longrightarrow>
          recorded_total (resolveStats sd' t') n = recorded_total (resolveStats sd t) n)"
proof (intro conjI allI impI)
  show "recorded_total (resolveStats sd t) n =
       fold (\<lambda>ch x. js_add x (recorded_total (resolveStats sd t) ch)) (children n) (Some (own n))"
    using assms by (rule own_plus_children)
  show "recorded_total (resolveStats sd t) n = Some (sum_list (map own (nodes n)))"
    using assms by (rule recorded_sum)
  show "recorded_total (resolveStats sd' t') n = recorded_total (resolveStats sd t) n"
    if "reorder t t'" for t' sd'
    using assms that by (rule recorded_reorder)
qed

theorem tree_sum_witness:
  "distinct (map cid (nodes (Stats 0 1 2 [Stats 1 3 4 [Stats 3 1 1 []], Stats 2 5 6 []] :: real stats)))
   \<and> Stats 0 1 2 [Stats 1 3 4 [Stats 3 1 1 []], Stats 2 5 6 []]
        \<in> set (nodes (Stats 0 1 2 [Stats 1 3 4 [Stats 3 1 1 []], Stats 2 5 6 []] :: real stats))
   \<and> recorded_total
        (resolveStats Map.empty (Stats 0 1 2 [Stats 1 3 4 [Stats 3 1 1 []], Stats 2 5 6 []] :: real stats))
        (Stats 0 1 2 [Stats 1 3 4 [Stats 3 1 1 []], Stats 2 5 6 []]) = Some 23
   \<and> reorder (Stats 0 1 2 [Stats 1 3 4 [Stats 3 1 1 []], Stats 2 5 6 []] :: real stats)
        (Stats 0 1 2 [Stats 2 5 6 [], Stats 1 3 4 [Stats 3 1 1 []]])
   \<and> recorded_total
        (resolveStats Map.empty (Stats 0 1 2 [Stats 2 5 6 [], Stats 1 3 4 [Stats 3 1 1 []]] :: real stats))
        (Stats 0 1 2 [Stats 1 3 4 [Stats 3 1 1 []], Stats 2 5 6 []]) = Some 23"
proof -
  let ?t = "Stats 0 1 2 [Stats 1 3 4 [Stats 3 1 1 []], Stats 2 5 6 []] :: real stats"
  let ?t' = "Stats 0 1 2 [Stats 2 5 6 [], Stats 1 3 4 [Stats 3 1 1 []]] :: real stats"
  have d: "distinct (map cid (nodes ?t))" by simp
  have n: "?t \<in> set (nodes ?t)" by simp
  have r: "reorder ?t ?t'" by (rule reorder_top) simp
  have s1: "recorded_total (resolveStats Map.empty ?t) ?t = Some (sum_list (map own (nodes ?t)))"
    by (rule tree_sum[OF d n, of Map.empty, THEN conjunct2, THEN conjunct1])
  have s2: "sum_list (map own (nodes ?t)) = 23" by (simp add: own_def)
  have s: "recorded_total (resolveStats Map.empty ?t) ?t = Some 23"
    using s1 by (simp only: s2)
  have "recorded_total (resolveStats Map.empty ?t') ?t = recorded_total (resolveStats Map.empty ?t) ?t"
    by (rule tree_sum[OF d n, of Map.empty, THEN conjunct2, THEN conjunct2, rule_format, OF r])
  then have s': "recorded_total (resolveStats Map.empty ?t') ?t = Some 23"
    by (simp only: s)
  show ?thesis using d n r s s' by (intro conjI)
qed

section \<open>Properties of resolveFrame\<close>

lemma resolveFrameChildren_balanced:
  fixes sd :: "'a::ab_semigroup_add statsData"
  assumes "frame_balanced fr" and "\<And>k. k \<in> K \<Longrightarrow> balanced_at sd k"
    and "resolveFrameChildren (fr, sd) ts = (fr', sd')"
  shows "frame_balanced fr' \<and> (\<forall>k \<in> K \<union> cid ` set (forest ts). balanced_at sd' k)
     \<and> startTime fr' = startTime fr \<and> frameId fr' = frameId fr"
  using assms
proof (induction ts arbitrary: fr sd K)
  case Nil
  then show ?case by simp
next
  case (Cons t ts)
  let ?K = "K \<union> cid ` set (nodes t)"
  let ?s1 = "resolveStats sd t"
  have s1: "balanced_at ?s1 j" if "j \<in> ?K" for j
    using Cons.prems(2) that by (rule resolve_balanced(1))
  have "balanced_at ?s1 (cid t)" using cid_in_nodes[of t] by (intro s1) simp
  then obtain d where d: "?s1 (cid t) = Some d" "balanced d"
    by (auto simp: balanced_at_def split: option.splits)
  have g: "getStatsData ?s1 (cid t) = ?s1" using d(1) by (simp add: getStatsData_def)
  obtain x y where df: "d_cpu d = Some x" "d_gpu d = Some y" "d_total d = Some (x + y)"
    using d(2) by (cases "d_cpu d"; cases "d_gpu d") (auto simp: balanced_def)
  obtain u v where ff: "f_cpu fr = Some u" "f_gpu fr = Some v" "f_total fr = Some (u + v)"
    using Cons.prems(1) by (cases "f_cpu fr"; cases "f_gpu fr") (auto simp: frame_balanced_def)
  let ?fr3 = "fr\<lparr>f_cpu := Some (u + x), f_gpu := Some (v + y), f_total := Some (u + v + (x + y))\<rparr>"
  have step: "resolveFrameChildren (fr, sd) (t # ts) = resolveFrameChildren (?fr3, ?s1) ts"
    using d(1) df ff by (simp add: g deref_def Let_def)
  have b3: "frame_balanced ?fr3" by (simp add: frame_balanced_def ac_simps)
  have "frame_balanced fr' \<and> (\<forall>k \<in> ?K \<union> cid ` set (forest ts). balanced_at sd' k)
     \<and> startTime fr' = startTime ?fr3 \<and> frameId fr' = frameId ?fr3"
    using b3 s1 Cons.prems(3) unfolding step by (rule Cons.IH)
  then show ?case by auto
qed

lemma resolveFrameChildren_numeric:
  assumes "f_total fr \<noteq> None"
    and "resolveFrameChildren (fr, sd) ts = (fr', sd')"
  shows "f_total fr' \<noteq> None \<and> startTime fr' = startTime fr"
  using assms
proof (induction ts arbitrary: fr sd)
  case Nil
  then show ?case by simp
next
  case (Cons t ts)
  let ?s1 = "resolveStats sd t"
  have "numeric_at ?s1 (cid t)"
    using cid_in_nodes[of t] by (intro resolve_numeric(1)[where K = "{}"]) auto
  then obtain d where d: "?s1 (cid t) = Some d" "numeric d"
    by (auto simp: numeric_at_def split: option.splits)
  have g: "getStatsData ?s1 (cid t) = ?s1" using d(1) by (simp add: getStatsData_def)
  obtain x where x: "d_total d = Some x" using d(2) by (auto simp: numeric_def)
  obtain u where u: "f_total fr = Some u" using Cons.prems(1) by auto
  let ?fr3 = "fr\<lparr>f_cpu := js_add (f_cpu fr) (d_cpu d), f_gpu := js_add (f_gpu fr) (d_gpu d),
     f_total := Some (u + x)\<rparr>"
  have step: "resolveFrameChildren (fr, sd) (t # ts) = resolveFrameChildren (?fr3, ?s1) ts"
    using d(1) x u by (simp add: g deref_def Let_def)
  have "f_total fr' \<noteq> None \<and> startTime fr' = startTime ?fr3"
    using _ Cons.prems(2) unfolding step by (rule Cons.IH) simp
  then show ?case by simp
qed

lemma resolveFrame_absent:
  "getFrameById (frameId frame + 1) = None \<Longrightarrow>
     resolveFrame getFrameById dt ease_fn this frame = (this, frame)"
  by (simp add: resolveFrame_def)

lemma resolveFrame_present:
  assumes "getFrameById (frameId frame + 1) = Some nextFrame"
    and "resolveFrameChildren (frame\<lparr>f_cpu := Some 0, f_gpu := Some 0, f_total := Some 0\<rparr>,
           statsData this) (f_children frame) = (frame1, sd)"
  shows "snd (resolveFrame getFrameById dt ease_fn this frame) =
      frame1\<lparr>f_deltaTime := Some (startTime nextFrame - startTime frame1),
             f_miscellaneous :=
               (if js_less (js_sub (Some (startTime nextFrame - startTime frame1)) (f_total frame1)) 0
                then Some 0
                else js_sub (Some (startTime nextFrame - startTime frame1)) (f_total frame1))\<rparr>"
    and "statsData (fst (resolveFrame getFrameById dt ease_fn this frame)) = sd"
    and "deltaTime (fst (resolveFrame getFrameById dt ease_fn this frame)) =
           startTime nextFrame - startTime frame1"
    and "softDeltaTime (fst (resolveFrame getFrameById dt ease_fn this frame)) =
           ease_fn (if softDeltaTime this = 0 then startTime nextFrame - startTime frame1
                    else softDeltaTime this)
             (startTime nextFrame - startTime frame1) dt EASE_FACTOR"
    and "displayCycle (fst (resolveFrame getFrameById dt ease_fn this frame)) =
           \<lparr>text_cycle = (updateCycle dt (text_cycle (displayCycle this)))\<lparr>needsUpdate := False\<rparr>,
            graph_cycle = (updateCycle dt (graph_cycle (displayCycle this)))\<lparr>needsUpdate := False\<rparr>\<rparr>"
    and "ui_calls (fst (resolveFrame getFrameById dt ease_fn this frame)) =
           ui_calls this
           @ (if needsUpdate (updateCycle dt (text_cycle (displayCycle this)))
              then [SetText, UpdateText] else [])
           @ (if needsUpdate (updateCycle dt (graph_cycle (displayCycle this)))
              then [UpdateGraph] else [])"
  using assms by (simp_all add: resolveFrame_def Let_def)

lemma frame0_balanced:
  "frame_balanced (frame\<lparr>f_cpu := Some 0, f_gpu := Some 0, f_total := Some (0::'a::monoid_add)\<rparr>)"
  by (simp add: frame_balanced_def)

lemma frame_balanced_times:
  "frame_balanced (fr\<lparr>f_deltaTime := x, f_miscellaneous := y\<rparr>) = frame_balanced fr"
  by (simp add: frame_balanced_def)

lemma resolveFrame_idle:
  "idle this \<Longrightarrow> idle (fst (resolveFrame getFrameById dt ease_fn this frame))"
  by (simp add: idle_def resolveFrame_def Let_def split: option.splits prod.splits)

lemma resolveFrames_idle:
  "idle this \<Longrightarrow> idle (resolveFrames ease_fn this calls)"
proof (induction calls arbitrary: this)
  case Nil
  then show ?case by simp
next
  case (Cons call calls)
  obtain getFrameById dt frame where c: "call = (getFrameById, dt, frame)"
    by (cases call) auto
  have "idle (fst (resolveFrame getFrameById dt ease_fn this frame))"
    using Cons.prems by (rule resolveFrame_idle)
  then show ?case unfolding c resolveFrames.simps by (rule Cons.IH)
qed

lemmas run_simps = resolveFrame_def Let_def seed_eq addChild_def getStatsData_def deref_def
  assign_def obj_def frameA_def frameA'_def frameB_def getFrameAB_def Inspector_def updateCycle_def
  EASE_FACTOR_def

lemma scenario_A:
  "getFrameAB (frameId frameA + 1) = Some frameB"
  "f_total (snd (resolveFrame getFrameAB 0.1 ease_fn Inspector frameA)) = Some 5"
  "f_cpu (snd (resolveFrame getFrameAB 0.1 ease_fn Inspector frameA)) = Some 2"
  "f_gpu (snd (resolveFrame getFrameAB 0.1 ease_fn Inspector frameA)) = Some 3"
  "statsData (fst (resolveFrame getFrameAB 0.1 ease_fn Inspector frameA)) 0
     = Some \<lparr>d_cpu = Some 2, d_gpu = Some 3, d_total = Some 5, d_initialized = True\<rparr>"
  by (simp_all add: run_simps)

lemma scenario_A':
  "getFrameAB (frameId frameA' + 1) = Some frameB"
  "f_total (snd (resolveFrame getFrameAB 0.1 ease_fn Inspector frameA')) = Some 25"
  by (simp_all add: run_simps)

lemmas number_run_simps = resolveFrame_def Let_def seed_eq addChild_def getStatsData_def deref_def
  assign_def obj_def frameN_def frameI_def getFrameN_def zero_number_def

section \<open>C2: totals are the sum of their parts\<close>

text \<open>
  C2 says that \<^verbatim>\<open>total == cpu + gpu\<close> holds exactly for every object written by the
  aggregation and for the frame. The three fields are accumulated separately, each in
  its own order of additions, and binary64 addition rounds. A node with
  \<^verbatim>\<open>cpu = 2^53\<close>, \<^verbatim>\<open>gpu = 1\<close> and one child with \<^verbatim>\<open>cpu = 0\<close>, \<^verbatim>\<open>gpu = 1\<close>: the
  object of the node ends with \<^verbatim>\<open>cpu = 2^53\<close>, \<^verbatim>\<open>gpu = 2\<close> and \<^verbatim>\<open>total = 2^53\<close>
  (2^53 + 1 rounds to 2^53, twice), while \<^verbatim>\<open>cpu + gpu\<close> is 2^53 + 2.
\<close>

theorem totals_balanced_counterexample:
  "resolveStats Map.empty
     (Stats 0 (Double 9007199254740992) (Double 1) [Stats 1 (Double 0) (Double 1) []]) 0
   = Some \<lparr>d_cpu = Some (Double 9007199254740992), d_gpu = Some (Double 2),
           d_total = Some (Double 9007199254740992), d_initialized = True\<rparr>
   \<and> Double 9007199254740992 + Double 2 = Double 9007199254740994
   \<and> \<not> balanced_at (resolveStats Map.empty
       (Stats 0 (Double 9007199254740992) (Double 1) [Stats 1 (Double 0) (Double 1) []])) 0"
  by code_simp

text \<open>
  C2, amended: where addition is exact (here: in every linearly ordered field), after
  \<^verbatim>\<open>resolveFrame\<close> has resolved a frame whose next frame is present, every object
  written during the aggregation has a total that is a number and equals its
  \<^verbatim>\<open>cpu + gpu\<close>, every object of the store that had this property keeps it, and the
  frame's \<^verbatim>\<open>total\<close> equals its \<^verbatim>\<open>cpu + gpu\<close>.
\<close>

theorem totals_balanced:
  fixes this :: "'a::linordered_field inspector"
  assumes "getFrameById (frameId frame + 1) = Some nextFrame"
  shows "(\<forall>k \<in> cid ` set (forest (f_children frame)).
            balanced_at (statsData (fst (resolveFrame getFrameById dt ease_fn this frame))) k)
     \<and> (\<forall>k. balanced_at (statsData this) k \<longrightarrow>
            balanced_at (statsData (fst (resolveFrame getFrameById dt ease_fn this frame))) k)
     \<and> frame_balanced (snd (resolveFrame getFrameById dt ease_fn this frame))"
proof -
  let ?f0 = "frame\<lparr>f_cpu := Some 0, f_gpu := Some 0, f_total := Some 0\<rparr>"
  obtain frame1 sd where l: "resolveFrameChildren (?f0, statsData this) (f_children frame) = (frame1, sd)"
    by (cases "resolveFrameChildren (?f0, statsData this) (f_children frame)") simp
  have b: "frame_balanced frame1
      \<and> (\<forall>k \<in> {k. balanced_at (statsData this) k} \<union> cid ` set (forest (f_children frame)).
            balanced_at sd k)
      \<and> startTime frame1 = startTime ?f0 \<and> frameId frame1 = frameId ?f0"
    using frame0_balanced _ l by (rule resolveFrameChildren_balanced) simp
  have sd: "statsData (fst (resolveFrame getFrameById dt ease_fn this frame)) = sd"
    by (rule resolveFrame_present(2)[where getFrameById = getFrameById and frame = frame, OF assms l])
  have "frame_balanced (snd (resolveFrame getFrameById dt ease_fn this frame))"
    using b
    by (simp only: resolveFrame_present(1)[where getFrameById = getFrameById and frame = frame, OF assms l]
        frame_balanced_times)
  then show ?thesis using b by (simp add: sd)
qed

theorem totals_balanced_witness:
  "getFrameAB (frameId frameA + 1) = Some frameB
   \<and> balanced_at (statsData (fst (resolveFrame getFrameAB 0.1 (ease (\<lambda>f d. d / f)) Inspector frameA))) 0
   \<and> frame_balanced (snd (resolveFrame getFrameAB 0.1 (ease (\<lambda>f d. d / f)) Inspector frameA))
   \<and> f_total (snd (resolveFrame getFrameAB 0.1 (ease (\<lambda>f d. d / f)) Inspector frameA)) = Some 5"
proof -
  have h: "getFrameAB (frameId frameA + 1) = Some frameB" by (rule scenario_A(1))
  have k: "0 \<in> cid ` set (forest (f_children frameA))" by (simp add: frameA_def)
  note t = totals_balanced[where getFrameById = getFrameAB and frame = frameA and dt = "0.1"
      and ease_fn = "ease (\<lambda>f d. d / f)" and this = Inspector, OF h]
  have "balanced_at (statsData (fst (resolveFrame getFrameAB 0.1 (ease (\<lambda>f d. d / f)) Inspector frameA))) 0"
    using t k by blast
  moreover have "frame_balanced (snd (resolveFrame getFrameAB 0.1 (ease (\<lambda>f d. d / f)) Inspector frameA))"
    using t by blast
  ultimately show ?thesis using h scenario_A(2) by simp
qed

section \<open>C3: the frame's elapsed time and its miscellaneous time\<close>

text \<open>
  C3 says that \<^verbatim>\<open>miscellaneous\<close> is at least 0 after every resolution. The guard of
  line 360 is \<^verbatim>\<open>frame.miscellaneous < 0\<close>, which is false for \<^verbatim>\<open>NaN\<close>. Frame N, whose
  sample has \<^verbatim>\<open>cpu = NaN\<close>, ends with \<^verbatim>\<open>total = NaN\<close> and
  \<^verbatim>\<open>miscellaneous = 20 - NaN = NaN\<close>; frame I, whose sample has \<^verbatim>\<open>cpu = Infinity\<close> and
  whose next frame starts at \<^verbatim>\<open>Infinity\<close>, ends with
  \<^verbatim>\<open>miscellaneous = Infinity - Infinity = NaN\<close>. \<^verbatim>\<open>NaN >= 0\<close> is false.
\<close>

theorem frame_times_counterexample:
  "(\<forall>ease_fn.
      f_total (snd (resolveFrame (getFrameN (Num 20)) 0 ease_fn inspectorN frameN)) = Some NaN
    \<and> f_deltaTime (snd (resolveFrame (getFrameN (Num 20)) 0 ease_fn inspectorN frameN)) = Some (Num 20)
    \<and> f_miscellaneous (snd (resolveFrame (getFrameN (Num 20)) 0 ease_fn inspectorN frameN)) = Some NaN
    \<and> f_total (snd (resolveFrame (getFrameN Infinity) 0 ease_fn inspectorN frameI)) = Some Infinity
    \<and> f_deltaTime (snd (resolveFrame (getFrameN Infinity) 0 ease_fn inspectorN frameI)) = Some Infinity
    \<and> f_miscellaneous (snd (resolveFrame (getFrameN Infinity) 0 ease_fn inspectorN frameI)) = Some NaN)
   \<and> \<not> (0::number) \<le> NaN"
  by (simp add: number_run_simps)

text \<open>
  C3, amended: for a frame whose next frame is present, \<^verbatim>\<open>resolveFrame\<close> sets \<^verbatim>\<open>deltaTime\<close> to
  the difference of the two start times and \<^verbatim>\<open>miscellaneous\<close> to \<^verbatim>\<open>deltaTime - total\<close>,
  or to 0 when that is below 0 (a difference that is \<^verbatim>\<open>NaN\<close> is not below 0 and is
  kept). So \<^verbatim>\<open>miscellaneous\<close> is never below 0, and it is 0
  whenever the aggregated total exceeds \<^verbatim>\<open>deltaTime\<close>; it is at least 0 where every
  number is below 0 or at least 0, that is where no number is \<^verbatim>\<open>NaN\<close>. This is proved
  for exact arithmetic with or without the special values: for the numbers of every
  type with numerals in which 0 is not below 0 and \<open>x < y\<close> gives \<open>x - y < 0\<close>, as in
  every linearly ordered field and in \<open>number\<close>.
\<close>

theorem frame_times:
  fixes this :: "'a::{zero,minus,ord,inverse,numeral} inspector"
  assumes "getFrameById (frameId frame + 1) = Some nextFrame"
    and "\<not> (0::'a) < 0"
    and "\<And>x y::'a. x < y \<Longrightarrow> x - y < 0"
  shows "\<exists>total m.
       f_total (snd (resolveFrame getFrameById dt ease_fn this frame)) = Some total
     \<and> f_deltaTime (snd (resolveFrame getFrameById dt ease_fn this frame))
         = Some (startTime nextFrame - startTime frame)
     \<and> f_miscellaneous (snd (resolveFrame getFrameById dt ease_fn this frame)) = Some m
     \<and> m = (if startTime nextFrame - startTime frame - total < 0 then 0
            else startTime nextFrame - startTime frame - total)
     \<and> \<not> m < 0
     \<and> (startTime nextFrame - startTime frame < total \<longrightarrow> m = 0)
     \<and> ((\<forall>x::'a. x < 0 \<or> 0 \<le> x) \<longrightarrow> 0 \<le> m)"
proof -
  let ?f0 = "frame\<lparr>f_cpu := Some 0, f_gpu := Some 0, f_total := Some 0\<rparr>"
  let ?d = "startTime nextFrame - startTime frame"
  obtain frame1 sd where l: "resolveFrameChildren (?f0, statsData this) (f_children frame) = (frame1, sd)"
    by (cases "resolveFrameChildren (?f0, statsData this) (f_children frame)") simp
  have b: "f_total frame1 \<noteq> None \<and> startTime frame1 = startTime ?f0"
    using _ l by (rule resolveFrameChildren_numeric) simp
  then obtain total where t: "f_total frame1 = Some total"
    by auto
  have s: "startTime frame1 = startTime frame" using b by simp
  define m where "m = (if ?d - total < 0 then 0 else ?d - total)"
  have r: "f_total (snd (resolveFrame getFrameById dt ease_fn this frame)) = Some total"
     "f_deltaTime (snd (resolveFrame getFrameById dt ease_fn this frame)) = Some ?d"
     "f_miscellaneous (snd (resolveFrame getFrameById dt ease_fn this frame)) = Some m"
    by (simp_all add: resolveFrame_present(1)[where getFrameById = getFrameById and frame = frame, OF assms(1) l]
        t s m_def)
  have n: "\<not> m < 0" using assms(2) by (simp add: m_def)
  have z: "m = 0" if "?d < total" using assms(3)[OF that] by (simp add: m_def)
  have p: "0 \<le> m" if a: "\<forall>x::'a. x < 0 \<or> 0 \<le> x"
  proof (cases "?d - total < 0")
    case True
    have "(0::'a) < 0 \<or> (0::'a) \<le> 0" using a by (rule spec)
    then show ?thesis using True assms(2) by (simp add: m_def)
  next
    case False
    have "?d - total < 0 \<or> 0 \<le> ?d - total" using a by (rule spec)
    then show ?thesis using False by (simp add: m_def)
  qed
  show ?thesis
  proof (intro exI conjI impI)
    show "f_total (snd (resolveFrame getFrameById dt ease_fn this frame)) = Some total" by (rule r(1))
    show "f_deltaTime (snd (resolveFrame getFrameById dt ease_fn this frame)) = Some ?d" by (rule r(2))
    show "f_miscellaneous (snd (resolveFrame getFrameById dt ease_fn this frame)) = Some m" by (rule r(3))
    show "m = (if ?d - total < 0 then 0 else ?d - total)" by (rule m_def)
    show "\<not> m < 0" by (rule n)
    show "m = 0" if "?d < total" using that by (rule z)
    show "0 \<le> m" if "\<forall>x::'a. x < 0 \<or> 0 \<le> x" using that by (rule p)
  qed
qed

theorem frame_times_witness:
  "getFrameAB (frameId frameA + 1) = Some frameB
   \<and> f_deltaTime (snd (resolveFrame getFrameAB 0.1 (ease (\<lambda>f d. d / f)) Inspector frameA)) = Some 20
   \<and> f_miscellaneous (snd (resolveFrame getFrameAB 0.1 (ease (\<lambda>f d. d / f)) Inspector frameA)) = Some 15
   \<and> getFrameAB (frameId frameA' + 1) = Some frameB
   \<and> f_deltaTime (snd (resolveFrame getFrameAB 0.1 (ease (\<lambda>f d. d / f)) Inspector frameA')) = Some 20
   \<and> f_miscellaneous (snd (resolveFrame getFrameAB 0.1 (ease (\<lambda>f d. d / f)) Inspector frameA')) = Some 0
   \<and> getFrameN (Num 20) (frameId frameN + 1) \<noteq> None
   \<and> (\<forall>ease_fn. \<exists>m.
        f_miscellaneous (snd (resolveFrame (getFrameN (Num 20)) 0 ease_fn inspectorN frameN)) = Some m
      \<and> \<not> m < 0)"
proof -
  have h: "getFrameAB (frameId frameA + 1) = Some frameB" by (rule scenario_A(1))
  have h': "getFrameAB (frameId frameA' + 1) = Some frameB" by (rule scenario_A'(1))
  have l0: "\<not> (0::real) < 0" by simp
  have l1: "x - y < 0" if "x < y" for x y :: real using that by simp
  have s: "startTime frameB - startTime frameA = 20" "startTime frameB - startTime frameA' = 20"
    by (simp_all add: frameA_def frameA'_def frameB_def)
  have a: "f_deltaTime (snd (resolveFrame getFrameAB 0.1 (ease (\<lambda>f d. d / f)) Inspector frameA)) = Some 20
   \<and> f_miscellaneous (snd (resolveFrame getFrameAB 0.1 (ease (\<lambda>f d. d / f)) Inspector frameA)) = Some 15"
    using frame_times[where getFrameById = getFrameAB and frame = frameA and dt = "0.1"
        and ease_fn = "ease (\<lambda>f d. d / f)" and this = Inspector, OF h l0 l1]
      scenario_A(2)[of "ease (\<lambda>f d. d / f)"]
    by (auto simp: s)
  have b: "f_deltaTime (snd (resolveFrame getFrameAB 0.1 (ease (\<lambda>f d. d / f)) Inspector frameA')) = Some 20
   \<and> f_miscellaneous (snd (resolveFrame getFrameAB 0.1 (ease (\<lambda>f d. d / f)) Inspector frameA')) = Some 0"
    using frame_times[where getFrameById = getFrameAB and frame = frameA' and dt = "0.1"
        and ease_fn = "ease (\<lambda>f d. d / f)" and this = Inspector, OF h' l0 l1]
      scenario_A'(2)[of "ease (\<lambda>f d. d / f)"]
    by (auto simp: s)
  have hn: "getFrameN (Num 20) (frameId frameN + 1) = Some
      \<lparr>frameId = 1, startTime = Num 20, f_children = [],
       f_cpu = None, f_gpu = None, f_total = None, f_deltaTime = None, f_miscellaneous = None\<rparr>"
    by (simp add: getFrameN_def frameN_def)
  have c: "\<exists>m.
        f_miscellaneous (snd (resolveFrame (getFrameN (Num 20)) 0 ease_fn inspectorN frameN)) = Some m
      \<and> \<not> m < 0"
    for ease_fn
    using frame_times[where getFrameById = "getFrameN (Num 20)" and frame = frameN and dt = 0
        and ease_fn = ease_fn and this = inspectorN, OF hn number_zero_irrefl number_sub_less]
    by auto
  show ?thesis using h h' a b c hn by simp
qed

section \<open>Properties of the cycle timers\<close>

lemma updateCycle_eq:
  "updateCycle dt c =
     (if duration c \<le> time c + dt then c\<lparr>needsUpdate := True, time := 0\<rparr>
      else c\<lparr>time := time c + dt\<rparr>)"
  by (simp add: updateCycle_def Let_def)

lemma advance_timer_Cons:
  "advance (timer d t) (x # xs) =
     (if d \<le> t + x then (1 + fst (advance (timer d 0) xs), snd (advance (timer d 0) xs))
      else advance (timer d (t + x)) xs)"
  by (simp add: timer_def updateCycle_eq split_def Let_def)

lemma advance_quiet:
  fixes d :: "'a::linordered_ab_group_add"
  assumes "\<forall>x\<in>set ds. 0 \<le> x" and "t + sum_list ds < d"
  shows "advance (timer d t) ds = (0, timer d (t + sum_list ds))"
  using assms
proof (induction ds arbitrary: t)
  case Nil
  then show ?case by simp
next
  case (Cons x xs)
  have nn: "0 \<le> sum_list xs" using Cons.prems(1) by (simp add: sum_list_nonneg)
  have lt: "t + x + sum_list xs < d" using Cons.prems(2) by (simp add: add.assoc)
  then have "t + x < d" using nn by (metis add_increasing2 leD leI le_add_same_cancel1 order_trans)
  moreover have "advance (timer d (t + x)) xs = (0, timer d (t + x + sum_list xs))"
    using Cons.prems(1) lt by (intro Cons.IH) auto
  ultimately show ?case by (simp add: advance_timer_Cons add.assoc del: advance.simps)
qed

lemma advance_once:
  fixes d :: "'a::linordered_ab_group_add"
  assumes "\<forall>x\<in>set ds. 0 \<le> x" and "t + sum_list ds = d" and "t < d" and "0 < d"
  shows "advance (timer d t) ds = (1, timer d 0)"
  using assms
proof (induction ds arbitrary: t)
  case Nil
  then show ?case by simp
next
  case (Cons x xs)
  have nn: "0 \<le> sum_list xs" using Cons.prems(1) by (simp add: sum_list_nonneg)
  have eq: "t + x + sum_list xs = d" using Cons.prems(2) by (simp add: add.assoc)
  show ?case
  proof (cases "d \<le> t + x")
    case True
    have "t + x \<le> d" using eq nn by (metis le_add_same_cancel1)
    then have "t + x = d" using True by simp
    then have "sum_list xs = 0" using eq by simp
    then have "advance (timer d 0) xs = (0, timer d (0 + sum_list xs))"
      using Cons.prems(1,4) by (intro advance_quiet) auto
    then show ?thesis using True \<open>sum_list xs = 0\<close> by (simp add: advance_timer_Cons del: advance.simps)
  next
    case False
    then have "advance (timer d (t + x)) xs = (1, timer d 0)"
      using Cons.prems(1,4) eq by (intro Cons.IH) auto
    then show ?thesis using False by (simp add: advance_timer_Cons del: advance.simps)
  qed
qed

lemma advance_compare:
  fixes dT :: "'a::linordered_ab_group_add"
  assumes "dG \<le> dT" and "\<forall>x\<in>set ds. 0 \<le> x" and "0 \<le> g"
  shows "(t \<le> g \<longrightarrow> fst (advance (timer dT t) ds) \<le> fst (advance (timer dG g) ds))
       \<and> fst (advance (timer dT t) ds) \<le> 1 + fst (advance (timer dG g) ds)"
  using assms(2,3)
proof (induction ds arbitrary: t g)
  case Nil
  then show ?case by simp
next
  case (Cons x xs)
  have x: "0 \<le> x" and xs: "\<forall>x\<in>set xs. 0 \<le> x" using Cons.prems(1) by auto
  have gx: "0 \<le> g + x" using x Cons.prems(2) by simp
  note IH = Cons.IH[OF xs]
  show ?case
  proof (cases "dT \<le> t + x"; cases "dG \<le> g + x")
    assume a: "dT \<le> t + x" "dG \<le> g + x"
    show ?thesis using a IH[of 0 0] by (simp add: advance_timer_Cons del: advance.simps)
  next
    assume a: "dT \<le> t + x" "\<not> dG \<le> g + x"
    have "\<not> t \<le> g" using a assms(1) by (metis add_right_mono order_trans)
    then show ?thesis using a IH[OF gx, of 0] gx by (simp add: advance_timer_Cons del: advance.simps)
  next
    assume a: "\<not> dT \<le> t + x" "dG \<le> g + x"
    show ?thesis using a IH[of 0 "t + x"] by (simp add: advance_timer_Cons del: advance.simps)
  next
    assume a: "\<not> dT \<le> t + x" "\<not> dG \<le> g + x"
    show ?thesis using a IH[OF gx, of "t + x"] by (simp add: advance_timer_Cons del: advance.simps)
  qed
qed

lemma advance_below:
  fixes d :: "'a::linordered_ab_group_add"
  assumes "0 < d" and "t < d"
  shows "time (snd (advance (timer d t) ds)) < d"
  using assms(2)
proof (induction ds arbitrary: t)
  case Nil
  then show ?case by (simp add: timer_def)
next
  case (Cons x xs)
  show ?case
  proof (cases "d \<le> t + x")
    case True
    then show ?thesis using Cons.IH[OF assms(1)]
      by (simp add: advance_timer_Cons del: advance.simps)
  next
    case False
    then have "t + x < d" by simp
    then show ?thesis using False Cons.IH[of "t + x"]
      by (simp add: advance_timer_Cons del: advance.simps)
  qed
qed

text \<open>
  A delta that is \<^verbatim>\<open>NaN\<close> leaves the time \<^verbatim>\<open>NaN\<close>, which is not below the duration.
\<close>

lemma updateCycle_NaN:
  "updateCycle NaN (timer (Num d) (Num t)) = timer (Num d) NaN \<and> \<not> NaN < Num d"
  by (simp add: updateCycle_eq timer_def)

section \<open>C4: when a cycle timer fires\<close>

text \<open>
  C4 says that any sequence of deltas summing exactly to the duration fires the timer
  exactly once, and that any sequence summing to less never fires it. A timer of
  duration 1 advanced by 1, 1, -1 (sum 1) fires twice; advanced by 2, -3/2 (sum 1/2)
  it fires once. In binary64 a timer of duration 2^53 + 2 advanced by 2^53, 1, 1 (the
  exact sum of the deltas is the duration) never fires: the accumulated time stays
  2^53, since 2^53 + 1 rounds to 2^53.
\<close>

theorem cycle_timer_counterexample:
  "sum_list [1, 1, - 1] = (1::real)
   \<and> advance (timer 1 0) [1, 1, - 1 :: real] = (2, timer 1 (- 1))
   \<and> sum_list [2, - 3 / 2] < (1::real)
   \<and> advance (timer 1 0) [2, - 3 / 2 :: real] = (1, timer 1 (- 3 / 2))
   \<and> sum_list (map val [Double 9007199254740992, Double 1, Double 1]) = val (Double 9007199254740994)
   \<and> advance (timer (Double 9007199254740994) (Double 0))
        [Double 9007199254740992, Double 1, Double 1]
      = (0, timer (Double 9007199254740994) (Double 9007199254740992))"
proof -
  have a: "advance (timer 1 0) [1, 1, - 1 :: real] = (2, timer 1 (- 1))"
    by (simp add: timer_def updateCycle_eq)
  have b: "advance (timer 1 0) [2, - 3 / 2 :: real] = (1, timer 1 (- 3 / 2))"
    by (simp add: timer_def updateCycle_eq)
  have c: "advance (timer (Double 9007199254740994) (Double 0))
        [Double 9007199254740992, Double 1, Double 1]
      = (0, timer (Double 9007199254740994) (Double 9007199254740992))"
    by code_simp
  show ?thesis using a b c by simp
qed

text \<open>
  C4, amended: whatever the numbers are, \<^verbatim>\<open>updateCycle\<close> adds the delta to the accumulated
  time; it sets \<^verbatim>\<open>needsUpdate\<close> exactly when the new time is at least the duration, and
  then resets the time to 0, so that the time is below a duration \<open>d > 0\<close> immediately
  after a firing. Where addition is exact and the order is linear (no rounding, no
  \<^verbatim>\<open>NaN\<close>), the time is below \<open>d\<close> after every advance; and if the timer starts at 0 with
  its flag clear, every sequence of non-negative deltas that sums to \<open>d\<close> fires exactly
  once and leaves the time 0, and every sequence of non-negative deltas that sums to
  less than \<open>d\<close> never fires.
\<close>

theorem cycle_timer:
  fixes d :: "'a::linordered_ab_group_add" and c :: "'b::{plus,zero,ord} cycle"
  assumes "0 < d"
  shows "updateCycle dt c =
       (if duration c \<le> time c + dt then c\<lparr>needsUpdate := True, time := 0\<rparr>
        else c\<lparr>time := time c + dt\<rparr>)
     \<and> (0 < duration c \<longrightarrow> duration c \<le> time c + dt \<longrightarrow>
          time (updateCycle dt c) < duration c)
     \<and> (\<forall>t x. time (updateCycle x (timer d t)) < d)
     \<and> (\<forall>ds t. t < d \<longrightarrow> time (snd (advance (timer d t) ds)) < d)
     \<and> (\<forall>ds. (\<forall>x\<in>set ds. 0 \<le> x) \<longrightarrow> sum_list ds = d \<longrightarrow>
            advance (timer d 0) ds = (1, timer d 0))
     \<and> (\<forall>ds. (\<forall>x\<in>set ds. 0 \<le> x) \<longrightarrow> sum_list ds < d \<longrightarrow>
            advance (timer d 0) ds = (0, timer d (sum_list ds)))"
proof (intro conjI allI impI)
  show "updateCycle dt c =
       (if duration c \<le> time c + dt then c\<lparr>needsUpdate := True, time := 0\<rparr>
        else c\<lparr>time := time c + dt\<rparr>)"
    by (rule updateCycle_eq)
  show "time (updateCycle dt c) < duration c"
    if "0 < duration c" "duration c \<le> time c + dt"
    using that by (simp add: updateCycle_eq)
  show "time (updateCycle x (timer d t)) < d" for t x
    using assms by (auto simp: updateCycle_eq timer_def not_le)
  show "advance (timer d 0) ds = (1, timer d 0)"
    if "\<forall>x\<in>set ds. 0 \<le> x" "sum_list ds = d" for ds
    using that assms by (intro advance_once) auto
  show "advance (timer d 0) ds = (0, timer d (sum_list ds))"
    if "\<forall>x\<in>set ds. 0 \<le> x" "sum_list ds < d" for ds
    using advance_quiet[of ds 0 d] that by simp
  show "time (snd (advance (timer d t) ds)) < d" if "t < d" for ds t
    using assms that by (rule advance_below)
qed

theorem cycle_timer_witness:
  "(0::real) < 1 / 4
   \<and> (0::number) < Num (1 / 4) \<and> Num (1 / 4) \<le> Num (1 / 5) + Num (1 / 10)
   \<and> updateCycle (Num (1 / 10)) (timer (Num (1 / 4)) (Num (1 / 5)))
        = \<lparr>needsUpdate = True, duration = Num (1 / 4), time = 0\<rparr>
   \<and> time (updateCycle (Num (1 / 10)) (timer (Num (1 / 4)) (Num (1 / 5)))) < Num (1 / 4)
   \<and> (0::real) \<le> 1 / 10 \<and> (0::real) \<le> 3 / 20 \<and> sum_list [1 / 10, 3 / 20] = (1 / 4 :: real)
   \<and> advance (timer (1 / 4) 0) [1 / 10, 3 / 20 :: real] = (1, timer (1 / 4) 0)
   \<and> sum_list [1 / 10, 1 / 10] < (1 / 4 :: real)
   \<and> advance (timer (1 / 4) 0) [1 / 10, 1 / 10 :: real] = (0, timer (1 / 4) (1 / 5))
   \<and> advance (timer (1 / 4) 0) [1 / 10, 1 / 10, 1 / 10 :: real] = (1, timer (1 / 4) 0)
   \<and> time (snd (advance (timer (1 / 4) 0) [1 / 10, 1 / 10, 1 / 10, 1 / 10 :: real])) < 1 / 4"
proof -
  have d: "(0::real) < 1 / 4" by simp
  note t = cycle_timer[where c = "timer (Num (1 / 4)) (Num (1 / 5))" and dt = "Num (1 / 10)", OF d]
  have n1: "(0::number) < Num (1 / 4)" by (simp add: zero_number_def)
  have n2: "Num (1 / 4) \<le> Num (1 / 5) + Num (1 / 10)" by simp
  have u: "updateCycle (Num (1 / 10)) (timer (Num (1 / 4)) (Num (1 / 5)))
        = \<lparr>needsUpdate = True, duration = Num (1 / 4), time = 0\<rparr>"
    using t[THEN conjunct1] n2 by (simp add: timer_def)
  have f: "time (updateCycle (Num (1 / 10)) (timer (Num (1 / 4)) (Num (1 / 5)))) < Num (1 / 4)"
    using t[THEN conjunct2, THEN conjunct1] n1 n2 by (simp add: timer_def)
  have h1: "\<forall>x\<in>set [1 / 10, 3 / 20 :: real]. 0 \<le> x" by simp
  have h2: "sum_list [1 / 10, 3 / 20] = (1 / 4 :: real)" by simp
  have a: "advance (timer (1 / 4) 0) [1 / 10, 3 / 20 :: real] = (1, timer (1 / 4) 0)"
    by (rule t[THEN conjunct2, THEN conjunct2, THEN conjunct2, THEN conjunct2, THEN conjunct1,
          THEN spec, THEN mp, THEN mp, OF h1 h2])
  have h3: "\<forall>x\<in>set [1 / 10, 1 / 10 :: real]. 0 \<le> x" by simp
  have h4: "sum_list [1 / 10, 1 / 10] < (1 / 4 :: real)" by simp
  have "advance (timer (1 / 4) 0) [1 / 10, 1 / 10 :: real]
      = (0, timer (1 / 4) (sum_list [1 / 10, 1 / 10]))"
    by (rule t[THEN conjunct2, THEN conjunct2, THEN conjunct2, THEN conjunct2, THEN conjunct2,
          THEN spec, THEN mp, THEN mp, OF h3 h4])
  then have b: "advance (timer (1 / 4) 0) [1 / 10, 1 / 10 :: real] = (0, timer (1 / 4) (1 / 5))"
    by (simp del: advance.simps)
  have c: "advance (timer (1 / 4) 0) [1 / 10, 1 / 10, 1 / 10 :: real] = (1, timer (1 / 4) 0)"
    by (simp add: timer_def updateCycle_eq)
  have e: "time (snd (advance (timer (1 / 4) 0) [1 / 10, 1 / 10, 1 / 10, 1 / 10 :: real])) < 1 / 4"
    by (rule t[THEN conjunct2, THEN conjunct2, THEN conjunct2, THEN conjunct1,
          THEN spec, THEN spec, THEN mp, OF d])
  show ?thesis using n1 n2 u f a b c e by (simp del: advance.simps)
qed

section \<open>C5: one object for several nodes\<close>

text \<open>
  C5 says that the object stored under a key shared by several nodes of one tree
  accumulates the totals of all of them. In the tree below two siblings share the key 1,
  with totals 2 and 3: the object ends with the total 3 of the sibling visited last,
  not with their combined total 5.
\<close>

theorem shared_cid_counterexample:
  "d_total (deref (resolveStats Map.empty
      (Stats 0 1 0 [Stats 1 2 0 [], Stats 1 3 0 []] :: real stats)) 1) = Some 3
   \<and> combined_total 1 (Stats 0 1 0 [Stats 1 2 0 [], Stats 1 3 0 []] :: real stats) = 5
   \<and> d_total (deref (resolveStats Map.empty
      (Stats 0 1 0 [Stats 1 2 0 [], Stats 1 3 0 []] :: real stats)) 1)
     \<noteq> Some (combined_total 1 (Stats 0 1 0 [Stats 1 2 0 [], Stats 1 3 0 []]))"
  by (simp add: seed_eq addChild_def getStatsData_def deref_def assign_def obj_def
      combined_total_def total3_def add3_def)

text \<open>
  C5, amended: when no node shares its key with one of its own descendants, the object
  stored under a key after \<^verbatim>\<open>resolveStats\<close> holds the aggregated values of the node with that
  key that was visited last, and of that node only.
\<close>

theorem shared_cid_keeps_last_visited:
  fixes t :: "'a::plus stats"
  assumes "nest_free t" and "k \<in> cids t"
  shows "resolveStats sd t k = Some (obj (agg (last_visited k t)))
    \<and> last_visited k t \<in> set (nodes t) \<and> cid (last_visited k t) = k"
proof -
  have ne: "filter (\<lambda>n. cid n = k) (nodes t) \<noteq> []"
    using assms(2) by (auto simp: cids_def filter_empty_conv)
  have "last_visited k t \<in> set (filter (\<lambda>n. cid n = k) (nodes t))"
    unfolding last_visited_def using ne by (rule last_in_set)
  then have m: "last_visited k t \<in> set (nodes t) \<and> cid (last_visited k t) = k"
    by simp
  have "written t k = Some (obj (agg (last_visited k t)))"
    unfolding last_visited_def using assms by (intro written_last(1)) (simp_all add: cids_def)
  then have "resolveStats sd t k = Some (obj (agg (last_visited k t)))"
    using assms(1) by (simp add: resolve_written(1) map_add_def)
  with m show ?thesis by simp
qed

theorem shared_cid_keeps_last_visited_witness:
  "nest_free (Stats 0 1 0 [Stats 1 2 0 [], Stats 1 3 0 []] :: real stats)
   \<and> 1 \<in> cids (Stats 0 1 0 [Stats 1 2 0 [], Stats 1 3 0 []] :: real stats)
   \<and> resolveStats Map.empty (Stats 0 1 0 [Stats 1 2 0 [], Stats 1 3 0 []] :: real stats) 1
       = Some \<lparr>d_cpu = Some 3, d_gpu = Some 0, d_total = Some 3, d_initialized = True\<rparr>"
proof -
  have a: "nest_free (Stats 0 1 0 [Stats 1 2 0 [], Stats 1 3 0 []] :: real stats)"
    by simp
  have b: "1 \<in> cids (Stats 0 1 0 [Stats 1 2 0 [], Stats 1 3 0 []] :: real stats)"
    by (simp add: cids_def)
  show ?thesis
    using a b shared_cid_keeps_last_visited [OF a b, of Map.empty]
    by (simp add: last_visited_def obj_def)
qed

section \<open>C6: the two cadences\<close>

text \<open>
  C6 says that the timer of the numeric text has the shorter duration, so that the text
  refresh fires at least as often as the graph redraw. The constructor gives the text
  timer the duration 0.25 and the graph timer 0.05; advanced by 0.1 from the
  constructed state, the graph timer fires and the text timer does not.
\<close>

theorem cadence_counterexample:
  "duration (text_cycle (displayCycle (Inspector :: real inspector))) = 1 / 4
   \<and> duration (graph_cycle (displayCycle (Inspector :: real inspector))) = 1 / 20
   \<and> \<not> duration (text_cycle (displayCycle (Inspector :: real inspector)))
        < duration (graph_cycle (displayCycle (Inspector :: real inspector)))
   \<and> fst (advance (text_cycle (displayCycle (Inspector :: real inspector))) [1 / 10]) = 0
   \<and> fst (advance (graph_cycle (displayCycle (Inspector :: real inspector))) [1 / 10]) = 1"
  by (simp add: Inspector_def updateCycle_eq)

text \<open>
  C6, amended: the text timer is constructed with the longer duration (0.25 against
  0.05), and, advanced by the same non-negative deltas from the constructed state, the
  graph timer fires at least as often as the text timer: the numeric text is the more
  throttled of the two.
\<close>

theorem cadence:
  fixes ds :: "'a::linordered_field list"
  assumes "\<forall>x\<in>set ds. 0 \<le> x"
  shows "duration (text_cycle (displayCycle (Inspector :: 'a inspector))) = 1 / 4
     \<and> duration (graph_cycle (displayCycle (Inspector :: 'a inspector))) = 1 / 20
     \<and> duration (graph_cycle (displayCycle (Inspector :: 'a inspector)))
        < duration (text_cycle (displayCycle (Inspector :: 'a inspector)))
     \<and> fst (advance (text_cycle (displayCycle (Inspector :: 'a inspector))) ds)
        \<le> fst (advance (graph_cycle (displayCycle (Inspector :: 'a inspector))) ds)"
proof -
  have t: "text_cycle (displayCycle (Inspector :: 'a inspector)) = timer (1 / 4) 0"
    and g: "graph_cycle (displayCycle (Inspector :: 'a inspector)) = timer (1 / 20) 0"
    by (simp_all add: Inspector_def timer_def)
  have le: "(1 / 20 :: 'a) \<le> 1 / 4" by simp
  have "fst (advance (timer (1 / 4 :: 'a) 0) ds) \<le> fst (advance (timer (1 / 20) 0) ds)"
    using advance_compare[OF le assms, of 0 0] by simp
  then show ?thesis by (simp add: t g timer_def)
qed

theorem cadence_witness:
  "(0::real) \<le> 1 / 10
   \<and> duration (graph_cycle (displayCycle (Inspector :: real inspector)))
        < duration (text_cycle (displayCycle (Inspector :: real inspector)))
   \<and> fst (advance (text_cycle (displayCycle (Inspector :: real inspector))) [1 / 10, 1 / 10, 1 / 10])
        \<le> fst (advance (graph_cycle (displayCycle (Inspector :: real inspector))) [1 / 10, 1 / 10, 1 / 10])
   \<and> fst (advance (text_cycle (displayCycle (Inspector :: real inspector))) [1 / 10, 1 / 10, 1 / 10]) = 1
   \<and> fst (advance (graph_cycle (displayCycle (Inspector :: real inspector))) [1 / 10, 1 / 10, 1 / 10]) = 3"
proof -
  have h: "\<forall>x\<in>set [1 / 10, 1 / 10, 1 / 10 :: real]. 0 \<le> x" by simp
  have v: "fst (advance (text_cycle (displayCycle (Inspector :: real inspector))) [1 / 10, 1 / 10, 1 / 10]) = 1"
    "fst (advance (graph_cycle (displayCycle (Inspector :: real inspector))) [1 / 10, 1 / 10, 1 / 10]) = 3"
    by (simp_all add: Inspector_def updateCycle_eq)
  show ?thesis using cadence[OF h] v by simp
qed

section \<open>C7: the first smoothed delta\<close>

text \<open>
  C7: when \<^verbatim>\<open>softDeltaTime\<close> is 0 before a frame is resolved, the smoothed value the
  resolution produces is the frame's \<^verbatim>\<open>deltaTime\<close>: line 372 sets it to
  \<^verbatim>\<open>frame.deltaTime\<close>, and \<open>ease\<close> moves it a fraction of the way toward the same
  value, whatever the fraction.
\<close>

theorem first_smoothed_is_raw:
  fixes this :: "'a::linordered_field inspector"
  assumes "getFrameById (frameId frame + 1) = Some nextFrame" and "softDeltaTime this = 0"
  shows "softDeltaTime (fst (resolveFrame getFrameById dt (ease fraction) this frame))
       = startTime nextFrame - startTime frame
     \<and> f_deltaTime (snd (resolveFrame getFrameById dt (ease fraction) this frame))
       = Some (softDeltaTime (fst (resolveFrame getFrameById dt (ease fraction) this frame)))"
proof -
  let ?f0 = "frame\<lparr>f_cpu := Some 0, f_gpu := Some 0, f_total := Some 0\<rparr>"
  obtain frame1 sd where l: "resolveFrameChildren (?f0, statsData this) (f_children frame) = (frame1, sd)"
    by (cases "resolveFrameChildren (?f0, statsData this) (f_children frame)") simp
  have b: "frame_balanced frame1
      \<and> (\<forall>k \<in> {} \<union> cid ` set (forest (f_children frame)). balanced_at sd k)
      \<and> startTime frame1 = startTime ?f0 \<and> frameId frame1 = frameId ?f0"
    using frame0_balanced _ l by (rule resolveFrameChildren_balanced) simp
  have s: "startTime frame1 = startTime frame" using b by simp
  show ?thesis
    using assms(2)
    by (simp add: resolveFrame_present(1)[where getFrameById = getFrameById and frame = frame, OF assms(1) l] resolveFrame_present(4)[where getFrameById = getFrameById and frame = frame, OF assms(1) l]
        s ease_def)
qed

theorem first_smoothed_is_raw_witness:
  "getFrameAB (frameId frameA + 1) = Some frameB
   \<and> softDeltaTime (Inspector :: real inspector) = 0
   \<and> softDeltaTime (fst (resolveFrame getFrameAB 0.1 (ease (\<lambda>f d. d / f)) Inspector frameA)) = 20
   \<and> f_deltaTime (snd (resolveFrame getFrameAB 0.1 (ease (\<lambda>f d. d / f)) Inspector frameA)) = Some 20"
proof -
  have h: "getFrameAB (frameId frameA + 1) = Some frameB" by (rule scenario_A(1))
  have z: "softDeltaTime (Inspector :: real inspector) = 0" by (simp add: Inspector_def)
  have s: "startTime frameB - startTime frameA = 20" by (simp add: frameA_def frameB_def)
  show ?thesis
    using first_smoothed_is_raw[where getFrameById = getFrameAB and frame = frameA and dt = "0.1"
        and fraction = "\<lambda>f d. d / f", OF h z] h z by (simp add: s)
qed

section \<open>Properties of the canvas cache\<close>

lemma lookup_hit:
  "canvasNodes s (node_ref n) = Some a \<Longrightarrow> getCanvasDataByNode e s n = (a, s)"
  by (simp add: getCanvasDataByNode_def)

lemma lookup_miss:
  assumes "canvasNodes s (node_ref n) = None"
  shows "fst (getCanvasDataByNode e s n) = length (heap s) + 5"
    and "canvasNodes (snd (getCanvasDataByNode e s n)) = (canvasNodes s)(node_ref n \<mapsto> length (heap s) + 5)"
    and "\<exists>xs cd. heap (snd (getCanvasDataByNode e s n)) = heap s @ xs @ [Bundle cd]
           \<and> length xs = 5 \<and> cd_node cd = node_ref n"
  using assms
  by (simp_all add: getCanvasDataByNode_def alloc_def Let_def split_def eval_nat_numeral)

lemma lookup_miss_bundle:
  assumes "canvasNodes s (node_ref n) = None"
  shows "\<exists>xs cd. heap (snd (getCanvasDataByNode e s n)) = heap s @ xs @ [Bundle cd]
           \<and> length xs = 5 \<and> cd_node cd = node_ref n \<and> cd_id cd = node_id n
           \<and> (cd_path cd, cd_name cd) = splitPath e (splitCamelCase e
                (case getName n of None \<Rightarrow> ''(unnamed)''
                 | Some x \<Rightarrow> if x = [] then ''(unnamed)'' else x))"
  using assms
  by (simp add: getCanvasDataByNode_def alloc_def Let_def split_def)

lemma lookup_cached:
  "canvasNodes (snd (getCanvasDataByNode e s n)) (node_ref n) = Some (fst (getCanvasDataByNode e s n))"
proof (cases "canvasNodes s (node_ref n)")
  case None
  then show ?thesis by (simp add: lookup_miss(1,2))
next
  case (Some a)
  then show ?thesis by (simp add: lookup_hit)
qed

lemma lookup_again:
  assumes "node_ref n' = node_ref n"
  shows "getCanvasDataByNode e' (snd (getCanvasDataByNode e s n)) n' =
     (fst (getCanvasDataByNode e s n), snd (getCanvasDataByNode e s n))"
  using lookup_cached[of e s n] assms by (intro lookup_hit) simp

lemma lookup_keeps:
  "canvasNodes s r = Some a \<Longrightarrow> canvasNodes (snd (getCanvasDataByNode e s n)) r = Some a"
proof (cases "canvasNodes s (node_ref n)")
  case None
  assume "canvasNodes s r = Some a"
  then show ?thesis using None by (auto simp: lookup_miss(2))
next
  case (Some b)
  assume "canvasNodes s r = Some a"
  then show ?thesis using Some by (simp add: lookup_hit)
qed

lemma lookup_ok: "cache_ok s \<Longrightarrow> cache_ok (snd (getCanvasDataByNode e s n))"
proof (cases "canvasNodes s (node_ref n)")
  case (Some b)
  assume "cache_ok s"
  then show ?thesis using Some by (simp add: lookup_hit)
next
  case None
  assume ok: "cache_ok s"
  let ?s' = "snd (getCanvasDataByNode e s n)"
  obtain xs cd where h: "heap ?s' = heap s @ xs @ [Bundle cd]" "length xs = 5" "cd_node cd = node_ref n"
    using lookup_miss(3)[OF None] by blast
  show ?thesis unfolding cache_ok_def
  proof (intro allI impI)
    fix r a assume c: "canvasNodes ?s' r = Some a"
    show "a < length (heap ?s') \<and> (\<exists>cd. heap ?s' ! a = Bundle cd \<and> cd_node cd = r)"
    proof (cases "r = node_ref n")
      case True
      then have "a = length (heap s) + 5" using c by (simp add: lookup_miss(2)[OF None])
      then show ?thesis using h True by (simp add: nth_append)
    next
      case False
      then have "canvasNodes s r = Some a" using c by (simp add: lookup_miss(2)[OF None])
      then have "a < length (heap s) \<and> (\<exists>cd. heap s ! a = Bundle cd \<and> cd_node cd = r)"
        using ok by (simp add: cache_ok_def)
      then show ?thesis using h by (simp add: nth_append)
    qed
  qed
qed

lemma lookups_ok: "cache_ok s \<Longrightarrow> cache_ok (lookups s calls)"
  by (induction s calls rule: lookups.induct) (simp_all add: lookup_ok)

lemma lookups_keep: "canvasNodes s r = Some a \<Longrightarrow> canvasNodes (lookups s calls) r = Some a"
  by (induction s calls rule: lookups.induct) (simp_all add: lookup_keeps)

lemma cache_ok_distinct:
  assumes "cache_ok s" and "canvasNodes s r1 = Some a1" and "canvasNodes s r2 = Some a2" and "r1 \<noteq> r2"
  shows "a1 \<noteq> a2"
proof
  assume "a1 = a2"
  moreover obtain c1 where "heap s ! a1 = Bundle c1" "cd_node c1 = r1"
    using assms(1,2) by (auto simp: cache_ok_def)
  moreover obtain c2 where "heap s ! a2 = Bundle c2" "cd_node c2 = r2"
    using assms(1,3) by (auto simp: cache_ok_def)
  ultimately show False using assms(4) by simp
qed

lemma empty_ok: "cache_ok \<lparr>canvasNodes = Map.empty, heap = h\<rparr>"
  by (simp add: cache_ok_def)

section \<open>C8: one bundle for each node\<close>

text \<open>
  C8: after a call of \<^verbatim>\<open>getCanvasDataByNode\<close> the cache holds the returned bundle under
  the node object. A call for a node that is not cached creates the bundle: an object
  at a new address, beside the objects that were there, made for this node from its
  \<^verbatim>\<open>id\<close> and from the name it has at that time. A call for a cached node returns the
  cached bundle and leaves the state as it was, so a second call with the same node
  object returns the bundle of the first call: nothing is allocated, and the result
  does not depend on the environment of the second call nor on what the node is called
  by then, so nothing is derived again. In a run that starts with an empty cache every
  call returns a bundle made for its node, and two calls with distinct node objects
  return distinct bundles.
\<close>

theorem canvas_cache:
  "canvasNodes (snd (getCanvasDataByNode e s n)) (node_ref n) = Some (fst (getCanvasDataByNode e s n))
   \<and> (canvasNodes s (node_ref n) = None \<longrightarrow>
        length (heap s) \<le> fst (getCanvasDataByNode e s n)
      \<and> fst (getCanvasDataByNode e s n) < length (heap (snd (getCanvasDataByNode e s n)))
      \<and> take (length (heap s)) (heap (snd (getCanvasDataByNode e s n))) = heap s
      \<and> (\<exists>cd. heap (snd (getCanvasDataByNode e s n)) ! fst (getCanvasDataByNode e s n) = Bundle cd
            \<and> cd_node cd = node_ref n \<and> cd_id cd = node_id n
            \<and> (cd_path cd, cd_name cd) = splitPath e (splitCamelCase e
                 (case getName n of None \<Rightarrow> ''(unnamed)''
                  | Some x \<Rightarrow> if x = [] then ''(unnamed)'' else x)))
      \<and> canvasNodes (snd (getCanvasDataByNode e s n))
          = (canvasNodes s)(node_ref n \<mapsto> fst (getCanvasDataByNode e s n)))
   \<and> (\<forall>a. canvasNodes s (node_ref n) = Some a \<longrightarrow> getCanvasDataByNode e s n = (a, s))
   \<and> (node_ref n' = node_ref n \<longrightarrow>
        getCanvasDataByNode e' (snd (getCanvasDataByNode e s n)) n'
          = (fst (getCanvasDataByNode e s n), snd (getCanvasDataByNode e s n)))
   \<and> (\<exists>cd. heap (snd (getCanvasDataByNode e1 (lookups \<lparr>canvasNodes = Map.empty, heap = h\<rparr> before) n1))
              ! fst (getCanvasDataByNode e1 (lookups \<lparr>canvasNodes = Map.empty, heap = h\<rparr> before) n1)
            = Bundle cd \<and> cd_node cd = node_ref n1)
   \<and> (node_ref n1 \<noteq> node_ref n2 \<longrightarrow>
      fst (getCanvasDataByNode e1 (lookups \<lparr>canvasNodes = Map.empty, heap = h\<rparr> before) n1)
      \<noteq> fst (getCanvasDataByNode e2
            (lookups (snd (getCanvasDataByNode e1
               (lookups \<lparr>canvasNodes = Map.empty, heap = h\<rparr> before) n1)) between) n2))"
proof (intro conjI impI allI)
  show "canvasNodes (snd (getCanvasDataByNode e s n)) (node_ref n) = Some (fst (getCanvasDataByNode e s n))"
    by (rule lookup_cached)
next
  assume m: "canvasNodes s (node_ref n) = None"
  obtain xs cd where b: "heap (snd (getCanvasDataByNode e s n)) = heap s @ xs @ [Bundle cd]"
    "length xs = 5" "cd_node cd = node_ref n" "cd_id cd = node_id n"
    "(cd_path cd, cd_name cd) = splitPath e (splitCamelCase e
        (case getName n of None \<Rightarrow> ''(unnamed)'' | Some x \<Rightarrow> if x = [] then ''(unnamed)'' else x))"
    using lookup_miss_bundle[OF m] by blast
  have a: "fst (getCanvasDataByNode e s n) = length (heap s) + 5" by (rule lookup_miss(1)[OF m])
  show "length (heap s) \<le> fst (getCanvasDataByNode e s n)" by (simp add: a)
  show "fst (getCanvasDataByNode e s n) < length (heap (snd (getCanvasDataByNode e s n)))"
    by (simp add: a b(1,2))
  show "take (length (heap s)) (heap (snd (getCanvasDataByNode e s n))) = heap s"
    by (simp add: b(1))
  show "\<exists>cd. heap (snd (getCanvasDataByNode e s n)) ! fst (getCanvasDataByNode e s n) = Bundle cd
            \<and> cd_node cd = node_ref n \<and> cd_id cd = node_id n
            \<and> (cd_path cd, cd_name cd) = splitPath e (splitCamelCase e
                 (case getName n of None \<Rightarrow> ''(unnamed)''
                  | Some x \<Rightarrow> if x = [] then ''(unnamed)'' else x))"
    using b(3,4,5) by (simp add: a b(1,2) nth_append)
  show "canvasNodes (snd (getCanvasDataByNode e s n))
          = (canvasNodes s)(node_ref n \<mapsto> fst (getCanvasDataByNode e s n))"
    by (simp add: a lookup_miss(2)[OF m])
next
  fix a assume "canvasNodes s (node_ref n) = Some a"
  then show "getCanvasDataByNode e s n = (a, s)" by (rule lookup_hit)
next
  assume "node_ref n' = node_ref n"
  then show "getCanvasDataByNode e' (snd (getCanvasDataByNode e s n)) n'
        = (fst (getCanvasDataByNode e s n), snd (getCanvasDataByNode e s n))"
    by (rule lookup_again)
next
  let ?s = "lookups \<lparr>canvasNodes = Map.empty, heap = h\<rparr> before"
  have "cache_ok ?s" using empty_ok by (rule lookups_ok)
  then have "cache_ok (snd (getCanvasDataByNode e1 ?s n1))" by (rule lookup_ok)
  moreover have "canvasNodes (snd (getCanvasDataByNode e1 ?s n1)) (node_ref n1)
      = Some (fst (getCanvasDataByNode e1 ?s n1))" by (rule lookup_cached)
  ultimately show "\<exists>cd. heap (snd (getCanvasDataByNode e1 ?s n1)) ! fst (getCanvasDataByNode e1 ?s n1)
            = Bundle cd \<and> cd_node cd = node_ref n1"
    by (simp add: cache_ok_def)
next
  assume ne: "node_ref n1 \<noteq> node_ref n2"
  let ?s = "lookups \<lparr>canvasNodes = Map.empty, heap = h\<rparr> before"
  let ?a1 = "fst (getCanvasDataByNode e1 ?s n1)"
  let ?s1 = "snd (getCanvasDataByNode e1 ?s n1)"
  let ?s2 = "lookups ?s1 between"
  let ?a2 = "fst (getCanvasDataByNode e2 ?s2 n2)"
  let ?s3 = "snd (getCanvasDataByNode e2 ?s2 n2)"
  have "cache_ok ?s" using empty_ok by (rule lookups_ok)
  then have "cache_ok ?s1" by (rule lookup_ok)
  then have "cache_ok ?s2" by (rule lookups_ok)
  then have ok: "cache_ok ?s3" by (rule lookup_ok)
  have "canvasNodes ?s1 (node_ref n1) = Some ?a1" by (rule lookup_cached)
  then have "canvasNodes ?s2 (node_ref n1) = Some ?a1" by (rule lookups_keep)
  then have c1: "canvasNodes ?s3 (node_ref n1) = Some ?a1" by (rule lookup_keeps)
  have c2: "canvasNodes ?s3 (node_ref n2) = Some ?a2" by (rule lookup_cached)
  show "?a1 \<noteq> ?a2" using ok c1 c2 ne by (rule cache_ok_distinct)
qed


theorem canvas_cache_witness:
  "canvasNodes \<lparr>canvasNodes = Map.empty, heap = []\<rparr> (node_ref nodeP) = None
   \<and> fst (getCanvasDataByNode env0 \<lparr>canvasNodes = Map.empty, heap = []\<rparr> nodeP) = 5
   \<and> canvasNodes (snd (getCanvasDataByNode env0 \<lparr>canvasNodes = Map.empty, heap = []\<rparr> nodeP)) 1 = Some 5
   \<and> heap (snd (getCanvasDataByNode env0 \<lparr>canvasNodes = Map.empty, heap = []\<rparr> nodeP)) ! 5
      = Bundle \<lparr>cd_id = 7, cd_name = ''normalView'', cd_path = [], cd_node = 1,
                cd_quad = 4, cd_canvasTarget = 1, cd_material = 3\<rparr>
   \<and> node_ref nodeP' = node_ref nodeP
   \<and> getCanvasDataByNode (env0\<lparr>devicePixelRatio := 3\<rparr>)
        (snd (getCanvasDataByNode env0 \<lparr>canvasNodes = Map.empty, heap = []\<rparr> nodeP)) nodeP'
      = (5, snd (getCanvasDataByNode env0 \<lparr>canvasNodes = Map.empty, heap = []\<rparr> nodeP))
   \<and> node_ref nodeP \<noteq> node_ref nodeQ
   \<and> fst (getCanvasDataByNode env0
        (snd (getCanvasDataByNode env0 \<lparr>canvasNodes = Map.empty, heap = []\<rparr> nodeP)) nodeQ) = 11"
proof -
  let ?s0 = "\<lparr>canvasNodes = Map.empty, heap = []\<rparr>"
  note t = canvas_cache[where n = nodeP and n' = nodeP' and e = env0 and s = ?s0
      and e' = "env0\<lparr>devicePixelRatio := 3\<rparr>"]
  have m: "canvasNodes ?s0 (node_ref nodeP) = None" by simp
  have r: "node_ref nodeP' = node_ref nodeP" by (simp add: nodeP_def nodeP'_def)
  have d: "node_ref nodeP \<noteq> node_ref nodeQ" by (simp add: nodeP_def nodeQ_def)
  have a: "fst (getCanvasDataByNode env0 ?s0 nodeP) = 5"
    by (simp add: lookup_miss(1))
  have nr: "node_ref nodeP = 1" by (simp add: nodeP_def)
  have k: "canvasNodes (snd (getCanvasDataByNode env0 ?s0 nodeP)) 1 = Some 5"
    using t[THEN conjunct1] by (simp only: a nr)
  have h: "heap (snd (getCanvasDataByNode env0 ?s0 nodeP)) ! 5
      = Bundle \<lparr>cd_id = 7, cd_name = ''normalView'', cd_path = [], cd_node = 1,
                cd_quad = 4, cd_canvasTarget = 1, cd_material = 3\<rparr>"
    by (simp add: getCanvasDataByNode_def alloc_def Let_def split_def nodeP_def env0_def)
  have b: "getCanvasDataByNode (env0\<lparr>devicePixelRatio := 3\<rparr>)
        (snd (getCanvasDataByNode env0 ?s0 nodeP)) nodeP'
      = (fst (getCanvasDataByNode env0 ?s0 nodeP), snd (getCanvasDataByNode env0 ?s0 nodeP))"
    using t r by blast
  have c: "fst (getCanvasDataByNode env0 (snd (getCanvasDataByNode env0 ?s0 nodeP)) nodeQ) = 11"
    by (simp add: getCanvasDataByNode_def alloc_def Let_def split_def nodeP_def nodeQ_def env0_def)
  show ?thesis using m r d a k h b c by (simp only: simp_thms)
qed

section \<open>C9: no refresh signal outlives a call\<close>

text \<open>
  C9: \<^verbatim>\<open>needsUpdate\<close> is false for both timers after construction and after every
  sequence of calls of \<^verbatim>\<open>resolveFrame\<close> on the constructed inspector. A call that
  resolves its frame clears both flags whatever they were before and whether or not the
  timer fired; a call whose next frame is absent returns at once and changes nothing.
\<close>

theorem flags_cleared:
  fixes this :: "'a::linordered_field inspector"
  shows "idle (Inspector :: 'a inspector)
     \<and> idle (resolveFrames ease_fn (Inspector :: 'a inspector) calls)
     \<and> (getFrameById (frameId frame + 1) \<noteq> None \<longrightarrow>
          idle (fst (resolveFrame getFrameById dt ease_fn this frame)))
     \<and> (getFrameById (frameId frame + 1) = None \<longrightarrow>
          resolveFrame getFrameById dt ease_fn this frame = (this, frame))"
proof -
  have i: "idle (Inspector :: 'a inspector)" by (simp add: idle_def Inspector_def)
  have r: "idle (resolveFrames ease_fn (Inspector :: 'a inspector) calls)"
    using i by (rule resolveFrames_idle)
  have p: "idle (fst (resolveFrame getFrameById dt ease_fn this frame))"
    if "getFrameById (frameId frame + 1) \<noteq> None"
    using that by (auto simp: idle_def resolveFrame_def Let_def split: prod.splits)
  show ?thesis using i r p by (simp add: resolveFrame_absent)
qed

theorem flags_cleared_witness:
  "getFrameAB (frameId frameA + 1) \<noteq> None
   \<and> idle (fst (resolveFrame getFrameAB 0 (ease (\<lambda>f d. d / f))
        (Inspector\<lparr>displayCycle :=
           \<lparr>text_cycle = \<lparr>needsUpdate = True, duration = 0.25, time = 0\<rparr>,
            graph_cycle = \<lparr>needsUpdate = True, duration = 0.05, time = 0\<rparr>\<rparr>\<rparr>) frameA))
   \<and> getFrameAB (frameId frameB + 1) = None
   \<and> resolveFrame getFrameAB 0.1 (ease (\<lambda>f d. d / f)) Inspector frameB = (Inspector, frameB)
   \<and> idle (resolveFrames (ease (\<lambda>f d. d / f)) Inspector
        [(getFrameAB, 0.1, frameB), (getFrameAB, 0.3, frameA)])"
proof -
  have h: "getFrameAB (frameId frameA + 1) \<noteq> None" using scenario_A(1) by simp
  have h': "getFrameAB (frameId frameB + 1) = None" by (simp add: getFrameAB_def frameB_def)
  show ?thesis
    using h h'
      flags_cleared[where ease_fn = "ease (\<lambda>f d. d / f)"
        and calls = "[(getFrameAB, 0.1, frameB), (getFrameAB, 0.3, frameA)]"
        and getFrameById = getFrameAB and frame = frameA and dt = 0
        and this = "Inspector\<lparr>displayCycle :=
           \<lparr>text_cycle = \<lparr>needsUpdate = True, duration = 0.25, time = 0\<rparr>,
            graph_cycle = \<lparr>needsUpdate = True, duration = 0.05, time = 0\<rparr>\<rparr>\<rparr>"]
      flags_cleared[where ease_fn = "ease (\<lambda>f d. d / f)" and calls = "[]"
        and getFrameById = getFrameAB and frame = frameB and dt = "0.1" and this = Inspector]
    by blast
qed

section \<open>Properties of resolveStats on objects\<close>

lemma tree_atI:
  "s_cid (h r) = c \<Longrightarrow> s_cpu (h r) = a \<Longrightarrow> s_gpu (h r) = b
     \<Longrightarrow> list_all2 (tree_at h) (s_children (h r)) cs \<Longrightarrow> tree_at h r (Stats c a b cs)"
  using tree_at.intros[of h r cs] by simp

lemma heights_ge: "ch \<in> set cs \<Longrightarrow> height ch \<le> heights cs"
  by (induction cs) auto

lemma resolve_at_tree:
  "tree_at h r t \<Longrightarrow> height t \<le> n \<Longrightarrow> resolveStats_at n h sd r = Some (resolveStats sd t)"
proof (induction arbitrary: n sd rule: tree_at.induct)
  case (1 h r cs)
  obtain m where m: "n = Suc m" "heights cs \<le> m"
    using "1.prems" by (cases n) auto
  have "resolveChildren_at m h c sd' rs = Some (resolveChildren c sd' cs')"
    if "list_all2 (\<lambda>r t. tree_at h r t \<and>
          (\<forall>n sd. height t \<le> n \<longrightarrow> resolveStats_at n h sd r = Some (resolveStats sd t))) rs cs'"
      and "heights cs' \<le> m" for rs cs' c sd'
    using that
  proof (induction rs cs' arbitrary: sd' rule: list_all2_induct)
    case Nil
    then show ?case by simp
  next
    case (Cons r' rs' t' ts')
    have ht: "height t' \<le> m" and hts: "heights ts' \<le> m" using Cons.prems by auto
    have "resolveStats_at m h sd' r' = Some (resolveStats sd' t')" using Cons.hyps(1) ht by blast
    moreover have "s_cid (h r') = cid t'" using Cons.hyps(1) by (auto elim: tree_at.cases)
    moreover have "resolveChildren_at m h c (addChild c (cid t') (resolveStats sd' t')) rs'
        = Some (resolveChildren c (addChild c (cid t') (resolveStats sd' t')) ts')"
      using hts by (rule Cons.IH)
    ultimately show ?case by simp
  qed
  then show ?case using "1.IH" m by simp
qed

lemma children_at_member:
  "resolveChildren_at m h c sd rs = Some s \<Longrightarrow> r' \<in> set rs
     \<Longrightarrow> \<exists>sd' s'. resolveStats_at m h sd' r' = Some s'"
proof (induction rs arbitrary: sd)
  case Nil
  then show ?case by simp
next
  case (Cons r rs)
  obtain sd1 where s1: "resolveStats_at m h sd r = Some sd1"
    and rest: "resolveChildren_at m h c (addChild c (s_cid (h r)) sd1) rs = Some s"
    using Cons.prems(1) by (auto split: option.splits)
  show ?case
  proof (cases "r' = r")
    case True
    then show ?thesis using s1 by blast
  next
    case False
    then have "r' \<in> set rs" using Cons.prems(2) by simp
    then show ?thesis using rest by (rule Cons.IH[rotated])
  qed
qed

lemma resolve_at_child:
  assumes "resolveStats_at n h sd r = Some s" and "(r, r') \<in> child_rel h"
  shows "\<exists>m sd' s'. m < n \<and> resolveStats_at m h sd' r' = Some s'"
proof -
  obtain m where m: "n = Suc m" using assms(1) by (cases n) auto
  have "resolveChildren_at m h (s_cid (h r)) (seed (s_cid (h r)) (s_cpu (h r)) (s_gpu (h r)) sd)
      (s_children (h r)) = Some s"
    using assms(1) m by simp
  moreover have "r' \<in> set (s_children (h r))" using assms(2) by (simp add: child_rel_def)
  ultimately have "\<exists>sd' s'. resolveStats_at m h sd' r' = Some s'" by (rule children_at_member)
  then show ?thesis using m by blast
qed

lemma resolve_at_descendant:
  assumes "(r, r') \<in> (child_rel h)\<^sup>+"
  shows "resolveStats_at n h sd r = Some s
     \<Longrightarrow> \<exists>m sd' s'. m < n \<and> resolveStats_at m h sd' r' = Some s'"
  using assms
proof (induction arbitrary: n sd s rule: trancl_induct)
  case (base y)
  then show ?case by (rule resolve_at_child[rotated])
next
  case (step y z)
  obtain m sd' s' where "m < n" "resolveStats_at m h sd' y = Some s'"
    using step.IH[OF step.prems] by blast
  moreover obtain k sd'' s'' where "k < m" "resolveStats_at k h sd'' z = Some s''"
    using resolve_at_child[OF \<open>resolveStats_at m h sd' y = Some s'\<close> step.hyps(2)] by blast
  ultimately show ?case by (meson less_trans)
qed

lemma resolve_at_cycle:
  assumes "(r, r) \<in> (child_rel h)\<^sup>+"
  shows "resolveStats_at n h sd r = None"
proof (induction n arbitrary: sd rule: less_induct)
  case (less n)
  show ?case
  proof (cases "resolveStats_at n h sd r")
    case None
    then show ?thesis .
  next
    case (Some s)
    then obtain m sd' s' where "m < n" "resolveStats_at m h sd' r = Some s'"
      using resolve_at_descendant[OF assms] by blast
    then show ?thesis using less.IH by fastforce
  qed
qed

section \<open>C10: termination of resolveStats\<close>

text \<open>
  C10: \<^verbatim>\<open>resolveStats\<close> returns on every finite acyclic sample tree. On trees as a
  datatype it is a total function by its definition, which recurses on the children
  only. On objects: when the objects reachable from a node unfold to a finite tree, the
  run returns as soon as the bound on the depth of calls is at least the height of that
  tree, with the store that \<^verbatim>\<open>resolveStats\<close> computes on the tree. Nothing in the code
  looks for a node that was seen before: from a node that is reachable from itself the
  run does not return, whatever the bound.
\<close>

theorem resolveStats_terminates:
  "(tree_at h r t \<longrightarrow>
      (\<forall>n sd. height t \<le> n \<longrightarrow> resolveStats_at n h sd r = Some (resolveStats sd t)))
   \<and> ((r, r) \<in> (child_rel h)\<^sup>+ \<longrightarrow> (\<forall>n sd. resolveStats_at n h sd r = None))"
  using resolve_at_tree resolve_at_cycle by blast

theorem resolveStats_terminates_witness:
  "tree_at objects3 0 (Stats 0 1 2 [Stats 1 3 4 [], Stats 2 5 6 []])
   \<and> height (Stats 0 1 2 [Stats 1 3 4 [], Stats 2 5 6 []] :: real stats) \<le> 2
   \<and> resolveStats_at 2 objects3 Map.empty 0
       = Some (resolveStats Map.empty (Stats 0 1 2 [Stats 1 3 4 [], Stats 2 5 6 []]))
   \<and> (0, 0) \<in> (child_rel looped)\<^sup>+
   \<and> resolveStats_at 7 looped Map.empty 0 = None"
proof -
  have t: "tree_at objects3 0 (Stats 0 1 2 [Stats 1 3 4 [], Stats 2 5 6 []])"
    by (auto intro!: tree_atI simp: objects3_def)
  have h: "height (Stats 0 1 2 [Stats 1 3 4 [], Stats 2 5 6 []] :: real stats) \<le> 2"
    by simp
  have l: "(0, 0) \<in> (child_rel looped)\<^sup>+"
    by (rule r_into_trancl) (simp add: child_rel_def looped_def)
  note T = resolveStats_terminates[of objects3 0 "Stats 0 1 2 [Stats 1 3 4 [], Stats 2 5 6 []]"]
  note L = resolveStats_terminates[of looped 0 "Stats 0 1 2 []"]
  have a: "resolveStats_at 2 objects3 Map.empty 0
       = Some (resolveStats Map.empty (Stats 0 1 2 [Stats 1 3 4 [], Stats 2 5 6 []]))"
    using T t h by blast
  have b: "resolveStats_at 7 looped Map.empty 0 = None"
    using L l by blast
  show ?thesis using t h l a b by (intro conjI)
qed

end
